theory Spec2Isabelle
  imports Main
begin

section \<open>Signal graph debug extraction (signal\_debug.ts)\<close>

text \<open>
  Reactive nodes are JavaScript objects that refer to each other; the model keeps them in a
  heap, a list of node objects, and a reference is an index into that list. A JavaScript
  reference always points to an object; a reference past the end of the list is read as an
  object none of whose properties is defined (\<open>deref\<close>), so that every function below is
  total. Prototypes are compared by identity in the source and are an enumeration here.
\<close>

type_synonym node_ref = nat
type_synonym lview_ref = nat
type_synonym injector_ref = nat

datatype Prototype =
  SIGNAL_NODE
  | REACTIVE_LVIEW_CONSUMER_NODE
  | TEMPORARY_CONSUMER_NODE
  | ROOT_EFFECT_NODE
  | VIEW_EFFECT_NODE
  | OTHER_PROTOTYPE

text \<open>
  The fields of a \<open>ReactiveNode\<close> that signal\_debug.ts reads. \<open>computation\<close> and
  \<open>sourceValue\<close> record whether the property is defined (only that is tested);
  \<open>hostTagName\<close> is the value of \<open>lView?.[HOST]?.tagName?.toLowerCase?.()\<close>;
  \<open>None\<close> is \<open>undefined\<close>.
\<close>

record 'v ReactiveNode =
  prototype :: Prototype
  producerNode :: "node_ref list option"
  debugName :: "string option"
  node_value :: "'v option"
  computation :: bool
  sourceValue :: bool
  hostTagName :: "string option"

type_synonym 'v heap = "'v ReactiveNode list"

definition deref :: "'v heap \<Rightarrow> node_ref \<Rightarrow> 'v ReactiveNode" where
  "deref h n =
     (if n < length h then h ! n
      else \<lparr>prototype = OTHER_PROTOTYPE, producerNode = None, debugName = None,
            node_value = None, computation = False, sourceValue = False,
            hostTagName = None\<rparr>)"

record 'v DebugSignalGraphNode =
  kind :: string
  label :: "string option"
  dvalue :: "'v option option"

record DebugSignalGraphEdge =
  consumer :: int
  producer :: int

record 'v DebugSignalGraph =
  nodes :: "'v DebugSignalGraphNode list"
  edges :: "DebugSignalGraphEdge list"

definition isComputedNode :: "'v ReactiveNode \<Rightarrow> bool" where
  "isComputedNode node =
     (let hasComputedProperties = computation node;
          isNotLinkedSignalNode = (\<not> sourceValue node)
      in hasComputedProperties \<and> isNotLinkedSignalNode)"

definition isTemplateNode :: "'v ReactiveNode \<Rightarrow> bool" where
  "isTemplateNode node =
     (prototype node = REACTIVE_LVIEW_CONSUMER_NODE \<or> prototype node = TEMPORARY_CONSUMER_NODE)"

definition isEffectNode :: "'v ReactiveNode \<Rightarrow> bool" where
  "isEffectNode node =
     (prototype node = ROOT_EFFECT_NODE \<or> prototype node = VIEW_EFFECT_NODE)"

definition isSignalNode :: "'v ReactiveNode \<Rightarrow> bool" where
  "isSignalNode node = (prototype node = SIGNAL_NODE)"

subsection \<open>JavaScript \<open>Map\<close> and \<open>Array.prototype.indexOf\<close>\<close>

text \<open>
  A \<open>Map\<close> iterates in insertion order and holds each key once: an association list in
  which \<open>set\<close> of a present key replaces the value in place and \<open>set\<close> of a new key
  appends.
\<close>

type_synonym signal_map = "(node_ref \<times> node_ref list) list"

definition map_has :: "signal_map \<Rightarrow> node_ref \<Rightarrow> bool" where
  "map_has m k = (k \<in> set (map fst m))"

definition map_set :: "signal_map \<Rightarrow> node_ref \<Rightarrow> node_ref list \<Rightarrow> signal_map" where
  "map_set m k v =
     (if map_has m k then map (\<lambda>(k', v'). if k' = k then (k', v) else (k', v')) m
      else m @ [(k, v)])"

definition map_keys :: "signal_map \<Rightarrow> node_ref list" where
  "map_keys m = map fst m"

text \<open>\<open>indexOf\<close> returns the first index of the element, and \<open>-1\<close> when it is absent.\<close>

fun indexOf :: "'a list \<Rightarrow> 'a \<Rightarrow> int" where
  "indexOf [] x = -1"
| "indexOf (y # ys) x =
     (if y = x then 0 else (let r = indexOf ys x in if r < 0 then -1 else r + 1))"

subsection \<open>Extraction\<close>

definition debugNode :: "'v ReactiveNode \<Rightarrow> 'v DebugSignalGraphNode" where
  "debugNode signalGraphNode =
     (if isComputedNode signalGraphNode then
        \<lparr>kind = ''computed'', label = debugName signalGraphNode,
         dvalue = Some (node_value signalGraphNode)\<rparr>
      else if isTemplateNode signalGraphNode then
        \<lparr>kind = ''template'', label = hostTagName signalGraphNode, dvalue = None\<rparr>
      else if isEffectNode signalGraphNode then
        \<lparr>kind = ''effect'', label = debugName signalGraphNode, dvalue = None\<rparr>
      else if isSignalNode signalGraphNode then
        \<lparr>kind = ''signal'', label = debugName signalGraphNode,
         dvalue = Some (node_value signalGraphNode)\<rparr>
      else
        \<lparr>kind = ''unknown'', label = debugName signalGraphNode, dvalue = None\<rparr>)"

definition edgesOf :: "node_ref list \<Rightarrow> node_ref \<times> node_ref list \<Rightarrow> DebugSignalGraphEdge list" where
  "edgesOf ns entry =
     (let consumerNode = indexOf ns (fst entry)
      in map (\<lambda>p. \<lparr>consumer = consumerNode, producer = indexOf ns p\<rparr>) (snd entry))"

definition getNodesAndEdgesFromSignalMap :: "'v heap \<Rightarrow> signal_map \<Rightarrow> 'v DebugSignalGraph" where
  "getNodesAndEdgesFromSignalMap h signalMap =
     (let ns = map_keys signalMap;
          debugSignalGraphNodes = map (\<lambda>n. debugNode (deref h n)) ns
      in \<lparr>nodes = debugSignalGraphNodes, edges = concat (map (edgesOf ns) signalMap)\<rparr>)"

definition producerNodes :: "'v heap \<Rightarrow> node_ref \<Rightarrow> node_ref list" where
  "producerNodes h node = (case producerNode (deref h node) of None \<Rightarrow> [] | Some ps \<Rightarrow> ps)"

function extractSignalNodesAndEdgesFromRoots ::
  "'v heap \<Rightarrow> node_ref list \<Rightarrow> signal_map \<Rightarrow> signal_map" where
  "extractSignalNodesAndEdgesFromRoots h [] signalDependenciesMap = signalDependenciesMap"
| "extractSignalNodesAndEdgesFromRoots h (node # rest) signalDependenciesMap =
     (if map_has signalDependenciesMap node then
        extractSignalNodesAndEdgesFromRoots h rest signalDependenciesMap
      else
        extractSignalNodesAndEdgesFromRoots h rest
          (extractSignalNodesAndEdgesFromRoots h (producerNodes h node)
             (map_set signalDependenciesMap node (producerNodes h node))))"
  by pat_completeness auto


text \<open>
  Termination of the nested recursion. Every reference that the traversal can meet lies in
  the finite set \<open>universe h \<union> set ns\<close>; a call that is not skipped adds a new key,
  so the number of such references that are not yet keys decreases.
\<close>

definition universe :: "'v heap \<Rightarrow> node_ref set" where
  "universe h = (\<Union>n \<in> {..<length h}. insert n (set (producerNodes h n)))"

definition unvisited :: "'v heap \<Rightarrow> node_ref list \<Rightarrow> signal_map \<Rightarrow> nat" where
  "unvisited h ns m = card ((universe h \<union> set ns) - set (map_keys m))"

lemma finite_universe: "finite (universe h)"
  by (simp add: universe_def)

lemma producerNodes_universe: "set (producerNodes h n) \<subseteq> universe h"
  by (cases "n < length h") (auto simp: universe_def producerNodes_def deref_def)

lemma keys_map_set: "set (map_keys (map_set m k v)) = insert k (set (map_keys m))"
  by (auto simp: map_keys_def map_set_def map_has_def split: if_splits prod.splits) force+

lemma map_has_keys: "map_has m k \<longleftrightarrow> k \<in> set (map_keys m)"
  by (simp add: map_has_def map_keys_def)

lemma extract_keys_mono_dom:
  "extractSignalNodesAndEdgesFromRoots_dom (h, ns, m) \<Longrightarrow>
   set (map_keys m) \<subseteq> set (map_keys (extractSignalNodesAndEdgesFromRoots h ns m))"
proof (induction h ns m rule: extractSignalNodesAndEdgesFromRoots.pinduct)
  case (1 h m)
  then show ?case by (simp add: extractSignalNodesAndEdgesFromRoots.psimps)
next
  case (2 h node rest m)
  show ?case
  proof (cases "map_has m node")
    case True
    with 2 show ?thesis by (simp add: extractSignalNodesAndEdgesFromRoots.psimps)
  next
    case False
    with 2 show ?thesis
      by (simp add: extractSignalNodesAndEdgesFromRoots.psimps keys_map_set) blast
  qed
qed

lemma unvisited_less:
  assumes "node \<notin> set (map_keys m)" "insert node (set (map_keys m)) \<subseteq> set (map_keys m')"
    and "set ns' \<subseteq> universe h \<union> set (node # rest)"
  shows "unvisited h ns' m' < unvisited h (node # rest) m"
  unfolding unvisited_def
proof (rule psubset_card_mono)
  show "finite (universe h \<union> set (node # rest) - set (map_keys m))"
    by (simp add: finite_universe)
  show "universe h \<union> set ns' - set (map_keys m')
        \<subset> universe h \<union> set (node # rest) - set (map_keys m)"
    using assms by auto
qed

lemma extract_dom_total: "All extractSignalNodesAndEdgesFromRoots_dom"
proof (relation "measures [\<lambda>(h, ns, m). unvisited h ns m, \<lambda>(h, ns, m). length ns]", goal_cases)
  case 1
  show ?case by simp
next
  case (2 h node rest m)
  then have "unvisited h rest m \<le> unvisited h (node # rest) m"
    unfolding unvisited_def
    by (intro card_mono) (auto simp: finite_universe)
  then show ?case by auto
next
  case (3 h node rest m)
  have "unvisited h (producerNodes h node) (map_set m node (producerNodes h node))
        < unvisited h (node # rest) m"
    using 3 producerNodes_universe[of h node]
    by (intro unvisited_less) (auto simp: map_has_keys keys_map_set)
  then show ?case by simp
next
  case (4 h node rest m)
  have "unvisited h rest (extractSignalNodesAndEdgesFromRoots h (producerNodes h node)
          (map_set m node (producerNodes h node))) < unvisited h (node # rest) m"
    using 4 extract_keys_mono_dom[OF 4(2)]
    by (intro unvisited_less) (auto simp: map_has_keys keys_map_set)
  then show ?case by simp
qed

termination extractSignalNodesAndEdgesFromRoots
  by (rule extract_dom_total)

subsection \<open>The entry point\<close>

text \<open>
  The injector classes, the view arrays and the dependency-injection debug data are not
  part of signal\_debug.ts. They appear as the fields of the world that the functions read:
  \<open>nodeInjectorTNodeIndex\<close> is \<open>getNodeInjectorTNode(injector).index\<close>,
  \<open>nodeInjectorLView\<close> is \<open>getNodeInjectorLView\<close>, \<open>lviewSlot l i\<close> is \<open>l[i]\<close>,
  \<open>reactiveTemplateConsumer l\<close> is \<open>l[REACTIVE_TEMPLATE_CONSUMER]\<close>, and
  \<open>resolverToEffects\<close> maps a resolver to the \<open>SIGNAL\<close> nodes of its effects. The
  development-mode assertions \<open>assertTNode\<close> and \<open>assertLView\<close> are taken to pass.
\<close>

datatype Injector = R3Injector injector_ref | NodeInjector injector_ref | OtherInjector injector_ref

datatype resolver = InjectorResolver Injector | LViewResolver lview_ref

record 'v world =
  heap :: "'v heap"
  nodeInjectorTNodeIndex :: "injector_ref \<Rightarrow> nat"
  nodeInjectorLView :: "injector_ref \<Rightarrow> lview_ref"
  lviewSlot :: "lview_ref \<Rightarrow> nat \<Rightarrow> lview_ref"
  reactiveTemplateConsumer :: "lview_ref \<Rightarrow> node_ref option"
  resolverToEffects :: "resolver \<Rightarrow> node_ref list option"

text \<open>
  The extraction functions above take the heap as an argument. To say what a call does to
  the heap, the functions follow once more with the world threaded through them, as the
  source runs: each takes the world and returns its result together with the world it
  leaves behind, and every access to a node is an operation on the world.
\<close>

definition readProducerNode :: "node_ref \<Rightarrow> 'v world \<Rightarrow> node_ref list option \<times> 'v world" where
  "readProducerNode node w = (producerNode (deref (heap w) node), w)"

definition readNode :: "node_ref \<Rightarrow> 'v world \<Rightarrow> 'v ReactiveNode \<times> 'v world" where
  "readNode node w = (deref (heap w) node, w)"

definition getTemplateConsumer :: "injector_ref \<Rightarrow> 'v world \<Rightarrow> node_ref option \<times> 'v world" where
  "getTemplateConsumer injector w =
     (let tNodeIndex = nodeInjectorTNodeIndex w injector;
          lView = nodeInjectorLView w injector;
          templateLView = lviewSlot w lView tNodeIndex
      in (reactiveTemplateConsumer w templateLView, w))"

definition extractEffectsFromInjector :: "Injector \<Rightarrow> 'v world \<Rightarrow> node_ref list \<times> 'v world" where
  "extractEffectsFromInjector injector w =
     (let diResolver = (case injector of
                          NodeInjector i \<Rightarrow> LViewResolver (nodeInjectorLView w i)
                        | _ \<Rightarrow> InjectorResolver injector);
          effects = (case resolverToEffects w diResolver of None \<Rightarrow> [] | Some es \<Rightarrow> es)
      in (effects, w))"

function extractSignalNodesAndEdgesFromRoots_st ::
  "node_ref list \<Rightarrow> signal_map \<Rightarrow> 'v world \<Rightarrow> signal_map \<times> 'v world" where
  "extractSignalNodesAndEdgesFromRoots_st [] signalDependenciesMap w =
     (signalDependenciesMap, w)"
| "extractSignalNodesAndEdgesFromRoots_st (node # rest) signalDependenciesMap w =
     (if map_has signalDependenciesMap node then
        extractSignalNodesAndEdgesFromRoots_st rest signalDependenciesMap w
      else
        (case readProducerNode node w of
           (pn, w1) \<Rightarrow>
             (let producerNodes = (case pn of None \<Rightarrow> [] | Some ps \<Rightarrow> ps) in
              case extractSignalNodesAndEdgesFromRoots_st producerNodes
                     (map_set signalDependenciesMap node producerNodes) w1 of
                (m1, w2) \<Rightarrow> extractSignalNodesAndEdgesFromRoots_st rest m1 w2)))"
  by pat_completeness auto

text \<open>
  As far as the threaded extraction is defined, it leaves the world alone and computes the
  map of the extraction above; with that, it ends for the same reason.
\<close>

lemma extract_st_dom:
  "extractSignalNodesAndEdgesFromRoots_st_dom (ns, m, w) \<Longrightarrow>
   extractSignalNodesAndEdgesFromRoots_st ns m w =
     (extractSignalNodesAndEdgesFromRoots (heap w) ns m, w)"
proof (induction ns m w rule: extractSignalNodesAndEdgesFromRoots_st.pinduct)
  case (1 m w)
  then show ?case by (simp add: extractSignalNodesAndEdgesFromRoots_st.psimps)
next
  case (2 node rest m w)
  show ?case
  proof (cases "map_has m node")
    case True
    with 2 show ?thesis by (simp add: extractSignalNodesAndEdgesFromRoots_st.psimps)
  next
    case False
    define ps where "ps = producerNodes (heap w) node"
    have r: "(producerNode (deref (heap w) node), w) = readProducerNode node w"
      by (simp add: readProducerNode_def)
    have ps: "ps = (case producerNode (deref (heap w) node) of None \<Rightarrow> [] | Some ps \<Rightarrow> ps)"
      by (simp add: ps_def producerNodes_def)
    define m1 where "m1 = extractSignalNodesAndEdgesFromRoots (heap w) ps (map_set m node ps)"
    have inner: "extractSignalNodesAndEdgesFromRoots_st ps (map_set m node ps) w = (m1, w)"
      using 2(3)[OF False r ps] by (simp add: m1_def)
    have outer: "extractSignalNodesAndEdgesFromRoots_st rest m1 w =
        (extractSignalNodesAndEdgesFromRoots (heap w) rest m1, w)"
      using 2(4)[OF False r ps inner[symmetric]] by simp
    have "extractSignalNodesAndEdgesFromRoots_st (node # rest) m w =
        extractSignalNodesAndEdgesFromRoots_st rest m1 w"
      using False 2(1) inner
      by (simp add: extractSignalNodesAndEdgesFromRoots_st.psimps r[symmetric] ps[symmetric])
    then show ?thesis
      using False outer by (simp add: m1_def ps_def)
  qed
qed

lemma extract_st_dom_total: "All extractSignalNodesAndEdgesFromRoots_st_dom"
proof (relation "measures [\<lambda>(ns, m, w). unvisited (heap w) ns m, \<lambda>(ns, m, w). length ns]",
    goal_cases)
  case 1
  show ?case by simp
next
  case (2 node rest m w)
  then have "unvisited (heap w) rest m \<le> unvisited (heap w) (node # rest) m"
    unfolding unvisited_def
    by (intro card_mono) (auto simp: finite_universe)
  then show ?case by auto
next
  case (3 node rest m w pn w1 ps)
  then have w1: "w1 = w" and ps: "ps = producerNodes (heap w) node"
    by (auto simp: readProducerNode_def producerNodes_def)
  have "unvisited (heap w) ps (map_set m node ps) < unvisited (heap w) (node # rest) m"
    using 3(1) producerNodes_universe[of "heap w" node] unfolding ps
    by (intro unvisited_less) (auto simp: map_has_keys keys_map_set)
  then show ?case by (simp add: w1)
next
  case (4 node rest m w pn w1 ps m1 w2)
  then have w1: "w1 = w" and ps: "ps = producerNodes (heap w) node"
    by (auto simp: readProducerNode_def producerNodes_def)
  have dom: "extractSignalNodesAndEdgesFromRoots_st_dom (ps, map_set m node ps, w)"
    using 4 by (simp add: w1)
  have "(m1, w2) = extractSignalNodesAndEdgesFromRoots_st ps (map_set m node ps) w"
    using 4 by (simp add: w1)
  then have m1: "m1 = extractSignalNodesAndEdgesFromRoots (heap w) ps (map_set m node ps)"
    and w2: "w2 = w"
    using extract_st_dom[OF dom] by simp_all
  have "\<not> map_has m node" using 4 by simp
  then have "unvisited (heap w) rest m1 < unvisited (heap w) (node # rest) m"
    using extract_keys_mono_dom[of "heap w" ps "map_set m node ps"] extract_dom_total unfolding m1
    by (intro unvisited_less) (auto simp: map_has_keys keys_map_set)
  then show ?case by (simp add: w2)
qed

termination extractSignalNodesAndEdgesFromRoots_st
  by (rule extract_st_dom_total)

fun debugSignalGraphNodes_st ::
  "node_ref list \<Rightarrow> 'v world \<Rightarrow> 'v DebugSignalGraphNode list \<times> 'v world" where
  "debugSignalGraphNodes_st [] w = ([], w)"
| "debugSignalGraphNodes_st (n # ns) w =
     (case readNode n w of
        (signalGraphNode, w1) \<Rightarrow>
          (case debugSignalGraphNodes_st ns w1 of
             (ds, w2) \<Rightarrow> (debugNode signalGraphNode # ds, w2)))"

definition getNodesAndEdgesFromSignalMap_st ::
  "signal_map \<Rightarrow> 'v world \<Rightarrow> 'v DebugSignalGraph \<times> 'v world" where
  "getNodesAndEdgesFromSignalMap_st signalMap w =
     (let ns = map_keys signalMap in
      case debugSignalGraphNodes_st ns w of
        (debugSignalGraphNodes, w1) \<Rightarrow>
          (\<lparr>nodes = debugSignalGraphNodes, edges = concat (map (edgesOf ns) signalMap)\<rparr>, w1))"

text \<open>
  \<open>getSignalGraph\<close> returns its result together with the world it leaves behind;
  \<open>throwError\<close> is the left summand.
\<close>

definition getSignalGraph ::
  "Injector \<Rightarrow> 'v world \<Rightarrow> (string + 'v DebugSignalGraph) \<times> 'v world" where
  "getSignalGraph injector w =
     (case injector of
        R3Injector _ \<Rightarrow>
          (Inl ''getSignalGraph does not currently support environment injectors'', w)
      | OtherInjector _ \<Rightarrow>
          (Inl ''getSignalGraph must be called with a NodeInjector or an R3Injector'', w)
      | NodeInjector i \<Rightarrow>
          (case getTemplateConsumer i w of
             (templateConsumer, w1) \<Rightarrow>
               (case extractEffectsFromInjector injector w1 of
                  (nonTemplateEffectNodes, w2) \<Rightarrow>
                    (let signalNodes = (case templateConsumer of
                                          Some c \<Rightarrow> c # nonTemplateEffectNodes
                                        | None \<Rightarrow> nonTemplateEffectNodes) in
                     case extractSignalNodesAndEdgesFromRoots_st signalNodes [] w2 of
                       (signalDependenciesMap, w3) \<Rightarrow>
                         (case getNodesAndEdgesFromSignalMap_st signalDependenciesMap w3 of
                            (graph, w4) \<Rightarrow> (Inr graph, w4))))))"

text \<open>What each threaded function returns, and the world it leaves behind.\<close>

lemma extract_st_eq:
  "extractSignalNodesAndEdgesFromRoots_st ns m w =
     (extractSignalNodesAndEdgesFromRoots (heap w) ns m, w)"
  using extract_st_dom extract_st_dom_total by blast

lemma debugSignalGraphNodes_st_eq:
  "debugSignalGraphNodes_st ns w = (map (\<lambda>n. debugNode (deref (heap w) n)) ns, w)"
  by (induction ns) (simp_all add: readNode_def)

lemma getNodesAndEdgesFromSignalMap_st_eq:
  "getNodesAndEdgesFromSignalMap_st m w = (getNodesAndEdgesFromSignalMap (heap w) m, w)"
  by (simp add: getNodesAndEdgesFromSignalMap_st_def getNodesAndEdgesFromSignalMap_def
      debugSignalGraphNodes_st_eq Let_def)

text \<open>The roots of the extraction for a node injector.\<close>

definition signalNodes :: "injector_ref \<Rightarrow> 'v world \<Rightarrow> node_ref list" where
  "signalNodes i w =
     (case fst (getTemplateConsumer i w) of
        Some c \<Rightarrow> c # fst (extractEffectsFromInjector (NodeInjector i) w)
      | None \<Rightarrow> fst (extractEffectsFromInjector (NodeInjector i) w))"

lemma getSignalGraph_NodeInjector:
  "getSignalGraph (NodeInjector i) w =
     (Inr (getNodesAndEdgesFromSignalMap (heap w)
             (extractSignalNodesAndEdgesFromRoots (heap w) (signalNodes i w) [])), w)"
  by (simp add: getSignalGraph_def signalNodes_def getTemplateConsumer_def
      extractEffectsFromInjector_def extract_st_eq getNodesAndEdgesFromSignalMap_st_eq Let_def
      split: option.splits)

subsection \<open>An example graph with a cycle\<close>

text \<open>
  A template consumer (node 0) that reads a computed (node 1) and a signal (node 2); the
  computed reads the signal and node 3, an effect, which reads the computed again, so that
  nodes 1 and 3 lie on a cycle.
\<close>

definition example_heap :: "int heap" where
  "example_heap =
     [\<lparr>prototype = REACTIVE_LVIEW_CONSUMER_NODE, producerNode = Some [1, 2], debugName = None,
       node_value = None, computation = False, sourceValue = False,
       hostTagName = Some ''app-root''\<rparr>,
      \<lparr>prototype = OTHER_PROTOTYPE, producerNode = Some [2, 3], debugName = Some ''total'',
       node_value = Some 7, computation = True, sourceValue = False, hostTagName = None\<rparr>,
      \<lparr>prototype = SIGNAL_NODE, producerNode = None, debugName = Some ''count'',
       node_value = Some 3, computation = False, sourceValue = False, hostTagName = None\<rparr>,
      \<lparr>prototype = ROOT_EFFECT_NODE, producerNode = Some [1], debugName = Some ''log'',
       node_value = None, computation = False, sourceValue = False, hostTagName = None\<rparr>]"

definition example_world :: "int world" where
  "example_world =
     \<lparr>heap = example_heap,
      nodeInjectorTNodeIndex = (\<lambda>_. 0),
      nodeInjectorLView = (\<lambda>_. 0),
      lviewSlot = (\<lambda>_ _. 1),
      reactiveTemplateConsumer = (\<lambda>l. if l = 1 then Some 0 else None),
      resolverToEffects = (\<lambda>r. if r = LViewResolver 0 then Some [3] else None)\<rparr>"

definition example_graph :: "int DebugSignalGraph" where
  "example_graph =
     \<lparr>nodes = [\<lparr>kind = ''template'', label = Some ''app-root'', dvalue = None\<rparr>,
               \<lparr>kind = ''computed'', label = Some ''total'', dvalue = Some (Some 7)\<rparr>,
               \<lparr>kind = ''signal'', label = Some ''count'', dvalue = Some (Some 3)\<rparr>,
               \<lparr>kind = ''effect'', label = Some ''log'', dvalue = None\<rparr>],
      edges = [\<lparr>consumer = 0, producer = 1\<rparr>, \<lparr>consumer = 0, producer = 2\<rparr>,
               \<lparr>consumer = 1, producer = 2\<rparr>, \<lparr>consumer = 1, producer = 3\<rparr>,
               \<lparr>consumer = 3, producer = 1\<rparr>]\<rparr>"

lemma example_extract:
  "extractSignalNodesAndEdgesFromRoots example_heap [0, 3] [] =
     [(0, [1, 2]), (1, [2, 3]), (2, []), (3, [1])]"
  by (simp add: example_heap_def producerNodes_def deref_def map_has_def map_set_def)

lemma example_getSignalGraph:
  "getSignalGraph (NodeInjector 0) example_world = (Inr example_graph, example_world)"
proof -
  have w: "heap example_world = example_heap" by (simp add: example_world_def)
  have roots: "signalNodes 0 example_world = [0, 3]"
    by (simp add: signalNodes_def example_world_def getTemplateConsumer_def
        extractEffectsFromInjector_def)
  show ?thesis
    unfolding getSignalGraph_NodeInjector roots w example_extract
    by (simp add: getNodesAndEdgesFromSignalMap_def map_keys_def edgesOf_def debugNode_def
        deref_def example_heap_def example_graph_def Let_def isComputedNode_def
        isTemplateNode_def isEffectNode_def isSignalNode_def)
qed

subsection \<open>Properties of the extraction\<close>

lemma map_set_absent: "\<not> map_has m k \<Longrightarrow> map_set m k v = m @ [(k, v)]"
  by (simp add: map_set_def)

lemma indexOf_bounds: "x \<in> set xs \<Longrightarrow> 0 \<le> indexOf xs x \<and> indexOf xs x < int (length xs)"
  by (induction xs) (auto simp: Let_def)

lemma extract_keys_mono:
  "set (map_keys m) \<subseteq> set (map_keys (extractSignalNodesAndEdgesFromRoots h ns m))"
  using extract_keys_mono_dom extract_dom_total by blast

lemma extract_distinct_keys:
  "distinct (map_keys m) \<Longrightarrow> distinct (map_keys (extractSignalNodesAndEdgesFromRoots h ns m))"
proof (induction h ns m rule: extractSignalNodesAndEdgesFromRoots.induct)
  case (1 h m)
  then show ?case by simp
next
  case (2 h node rest m)
  show ?case
  proof (cases "map_has m node")
    case True
    with 2 show ?thesis by simp
  next
    case False
    then have "distinct (map_keys (map_set m node (producerNodes h node)))"
      using 2(4) by (simp add: map_set_absent map_keys_def map_has_def)
    with 2 False show ?thesis by simp
  qed
qed

text \<open>
  Every root becomes a key, and every entry that the traversal adds has all its producers
  among the keys of the result.
\<close>

lemma extract_closed:
  "set ns \<subseteq> set (map_keys (extractSignalNodesAndEdgesFromRoots h ns m)) \<and>
   (\<forall>e \<in> set (extractSignalNodesAndEdgesFromRoots h ns m).
      e \<in> set m \<or> set (snd e) \<subseteq> set (map_keys (extractSignalNodesAndEdgesFromRoots h ns m)))"
proof (induction h ns m rule: extractSignalNodesAndEdgesFromRoots.induct)
  case (1 h m)
  then show ?case by simp
next
  case (2 h node rest m)
  show ?case
  proof (cases "map_has m node")
    case True
    then have "node \<in> set (map_keys (extractSignalNodesAndEdgesFromRoots h rest m))"
      using extract_keys_mono[of m h rest] by (auto simp: map_has_keys)
    with 2(1)[OF True] True show ?thesis by simp
  next
    case False
    define ps where "ps = producerNodes h node"
    define m1 where "m1 = map_set m node ps"
    define m2 where "m2 = extractSignalNodesAndEdgesFromRoots h ps m1"
    define m3 where "m3 = extractSignalNodesAndEdgesFromRoots h rest m2"
    have res: "extractSignalNodesAndEdgesFromRoots h (node # rest) m = m3"
      using False by (simp add: m3_def m2_def m1_def ps_def)
    have m1: "m1 = m @ [(node, ps)]"
      using False by (simp add: m1_def map_set_absent)
    have ih2: "set ps \<subseteq> set (map_keys m2)"
      "\<forall>e \<in> set m2. e \<in> set m1 \<or> set (snd e) \<subseteq> set (map_keys m2)"
      using 2(2)[OF False] by (simp_all add: m2_def m1_def ps_def)
    have ih3: "set rest \<subseteq> set (map_keys m3)"
      "\<forall>e \<in> set m3. e \<in> set m2 \<or> set (snd e) \<subseteq> set (map_keys m3)"
      using 2(3)[OF False] by (simp_all add: m3_def m2_def m1_def ps_def)
    have k12: "set (map_keys m1) \<subseteq> set (map_keys m2)"
      unfolding m2_def by (rule extract_keys_mono)
    have k23: "set (map_keys m2) \<subseteq> set (map_keys m3)"
      unfolding m3_def by (rule extract_keys_mono)
    have node: "node \<in> set (map_keys m3)"
      using k12 k23 by (auto simp: m1 map_keys_def)
    have "e \<in> set m \<or> set (snd e) \<subseteq> set (map_keys m3)" if "e \<in> set m3" for e
    proof -
      from that ih3(2) consider "e \<in> set m2" | "set (snd e) \<subseteq> set (map_keys m3)" by blast
      then show ?thesis
      proof cases
        case 1
        with ih2(2) consider "e \<in> set m" | "e = (node, ps)" | "set (snd e) \<subseteq> set (map_keys m2)"
          by (auto simp: m1)
        then show ?thesis using ih2(1) k23 by cases auto
      qed simp
    qed
    with node ih3(1) show ?thesis unfolding res by simp
  qed
qed

lemma extract_from_empty_closed:
  assumes "(k, ps) \<in> set (extractSignalNodesAndEdgesFromRoots h ns [])"
  shows "set ps \<subseteq> set (map_keys (extractSignalNodesAndEdgesFromRoots h ns []))"
proof -
  have "\<forall>e \<in> set (extractSignalNodesAndEdgesFromRoots h ns []).
          set (snd e) \<subseteq> set (map_keys (extractSignalNodesAndEdgesFromRoots h ns []))"
    using extract_closed[of ns h "[]"] by simp
  from this assms
  have "set (snd (k, ps)) \<subseteq> set (map_keys (extractSignalNodesAndEdgesFromRoots h ns []))"
    by (rule bspec)
  then show ?thesis by simp
qed

lemma edges_in_range:
  assumes closed: "\<forall>(k, ps) \<in> set m. set ps \<subseteq> set (map_keys m)"
    and e: "e \<in> set (edges (getNodesAndEdgesFromSignalMap h m))"
  shows "0 \<le> consumer e \<and> consumer e < int (length (nodes (getNodesAndEdgesFromSignalMap h m)))
       \<and> 0 \<le> producer e \<and> producer e < int (length (nodes (getNodesAndEdgesFromSignalMap h m)))"
proof -
  from e obtain k ps p where kp: "(k, ps) \<in> set m" "p \<in> set ps"
    and e_def: "e = \<lparr>consumer = indexOf (map_keys m) k, producer = indexOf (map_keys m) p\<rparr>"
    by (auto simp: getNodesAndEdgesFromSignalMap_def edgesOf_def Let_def)
  have "k \<in> set (map_keys m)" using kp(1) by (force simp: map_keys_def)
  moreover have "p \<in> set (map_keys m)" using closed kp by auto
  ultimately show ?thesis
    using indexOf_bounds[of k "map_keys m"] indexOf_bounds[of p "map_keys m"]
    by (simp add: e_def getNodesAndEdgesFromSignalMap_def Let_def)
qed


text \<open>
  C6. \<open>extractSignalNodesAndEdgesFromRoots\<close> terminates on every heap, every list of roots
  and every dependency map, whether or not the producer references form cycles: every
  argument is in the domain of the recursion. A node that is already a key is skipped, so
  a map whose keys are distinct on entry has distinct keys on exit: no node is entered
  twice.
\<close>

theorem extract_terminates:
  "extractSignalNodesAndEdgesFromRoots_dom (h, ns, m) \<and>
   (distinct (map_keys m) \<longrightarrow>
      distinct (map_keys (extractSignalNodesAndEdgesFromRoots h ns m)))"
  using extract_dom_total extract_distinct_keys by blast

theorem extract_terminates_witness:
  "extractSignalNodesAndEdgesFromRoots_dom (example_heap, [0, 3], []) \<and>
   distinct (map_keys []) \<and>
   distinct (map_keys (extractSignalNodesAndEdgesFromRoots example_heap [0, 3] []))"
  using extract_terminates [of example_heap "[0, 3]" "[]"] by (simp add: map_keys_def)

text \<open>
  C10. Every edge of the graph that \<open>getSignalGraph\<close> returns has a consumer index and a
  producer index that are at least 0 and less than the number of returned nodes.
\<close>

theorem getSignalGraph_edges_valid:
  assumes "getSignalGraph injector w = (Inr g, w')" and "e \<in> set (edges g)"
  shows "0 \<le> consumer e \<and> consumer e < int (length (nodes g)) \<and>
         0 \<le> producer e \<and> producer e < int (length (nodes g))"
proof (cases injector)
  case (NodeInjector i)
  then obtain ns where g: "g = getNodesAndEdgesFromSignalMap (heap w)
      (extractSignalNodesAndEdgesFromRoots (heap w) ns [])"
    using assms(1) by (auto simp: getSignalGraph_NodeInjector)
  have "\<forall>(k, ps) \<in> set (extractSignalNodesAndEdgesFromRoots (heap w) ns []).
          set ps \<subseteq> set (map_keys (extractSignalNodesAndEdgesFromRoots (heap w) ns []))"
    using extract_from_empty_closed by blast
  moreover have "e \<in> set (edges (getNodesAndEdgesFromSignalMap (heap w)
      (extractSignalNodesAndEdgesFromRoots (heap w) ns [])))"
    using assms(2) g by simp
  ultimately show ?thesis
    unfolding g by (rule edges_in_range)
qed (use assms(1) in \<open>simp_all add: getSignalGraph_def\<close>)

theorem getSignalGraph_edges_valid_witness:
  "getSignalGraph (NodeInjector 0) example_world = (Inr example_graph, example_world) \<and>
   \<lparr>consumer = 3, producer = 1\<rparr> \<in> set (edges example_graph) \<and>
   0 \<le> consumer \<lparr>consumer = 3, producer = 1\<rparr> \<and>
   consumer \<lparr>consumer = 3, producer = 1\<rparr> < int (length (nodes example_graph)) \<and>
   0 \<le> producer \<lparr>consumer = 3, producer = 1\<rparr> \<and>
   producer \<lparr>consumer = 3, producer = 1\<rparr> < int (length (nodes example_graph))"
proof -
  have e: "\<lparr>consumer = 3, producer = 1\<rparr> \<in> set (edges example_graph)"
    by (simp add: example_graph_def)
  from getSignalGraph_edges_valid [OF example_getSignalGraph e] example_getSignalGraph e
  show ?thesis by blast
qed


section \<open>After-render hooks (manager.ts)\<close>

subsection \<open>JavaScript \<open>Set\<close>\<close>

text \<open>
  A \<open>Set\<close> is the list of its entries in insertion order. \<open>delete\<close> leaves an empty entry
  behind (\<open>None\<close>), \<open>add\<close> of a new element appends, and an iterator is an index into the
  entries that skips the empty ones and reads the length anew at every step, so that the
  loops below see the elements that are added or deleted while they run, as a \<open>for...of\<close>
  loop does.
\<close>

type_synonym 'a js_set = "'a option list"

definition set_has :: "'a js_set \<Rightarrow> 'a \<Rightarrow> bool" where
  "set_has es x = (Some x \<in> set es)"

definition set_add :: "'a \<Rightarrow> 'a js_set \<Rightarrow> 'a js_set" where
  "set_add x es = (if set_has es x then es else es @ [Some x])"

definition set_delete :: "'a \<Rightarrow> 'a js_set \<Rightarrow> 'a js_set" where
  "set_delete x es = map (\<lambda>e. if e = Some x then None else e) es"

definition set_clear :: "'a js_set \<Rightarrow> 'a js_set" where
  "set_clear es = map (\<lambda>e. None) es"

definition set_values :: "'a js_set \<Rightarrow> 'a list" where
  "set_values es = concat (map (\<lambda>e. case e of None \<Rightarrow> [] | Some x \<Rightarrow> [x]) es)"

definition set_size :: "'a js_set \<Rightarrow> nat" where
  "set_size es = length (set_values es)"

text \<open>The invariant of the representation: no element is entered twice.\<close>

definition set_wf :: "'a js_set \<Rightarrow> bool" where
  "set_wf es = distinct (set_values es)"

subsection \<open>Phases, hooks and sequences\<close>

datatype AfterRenderPhase = EarlyRead | Write | MixedReadWrite | Read

definition AFTER_RENDER_PHASES :: "AfterRenderPhase list" where
  "AFTER_RENDER_PHASES = [EarlyRead, Write, MixedReadWrite, Read]"

text \<open>The position of a phase in the \<open>AfterRenderHooks\<close> tuple.\<close>

fun phase_index :: "AfterRenderPhase \<Rightarrow> nat" where
  "phase_index EarlyRead = 0"
| "phase_index Write = 1"
| "phase_index MixedReadWrite = 2"
| "phase_index Read = 3"

datatype NotificationSource = RenderHook | DeferredRenderHook

type_synonym sequence_ref = nat
type_synonym view_ref = nat

text \<open>
  A hook is user code. It receives the pipelined value (\<open>None\<close> is \<open>undefined\<close>), may call
  back into the manager while it runs, and then returns a value or throws. A run of a hook
  is the list of its calls on the manager, in order, and its outcome (\<open>Inl\<close> is the thrown
  error); a hook is a function from the value it receives to its run. The calls a hook can
  make are \<open>register\<close> (also reached through \<open>queueRegistration\<close>, which registers
  directly while the manager executes), \<open>unregister\<close>, and \<open>destroy\<close> of a sequence.
  A hook that calls \<open>execute\<close> again from inside itself is outside this model.
\<close>

datatype manager_call = Register sequence_ref | Unregister sequence_ref | Destroy sequence_ref

record ('v, 'e) hook_run =
  calls :: "manager_call list"
  outcome :: "'e + 'v option"

type_synonym ('v, 'e) AfterRenderHook = "'v option \<Rightarrow> ('v, 'e) hook_run"

record ('v, 'e) AfterRenderSequence =
  hooks :: "AfterRenderPhase \<Rightarrow> ('v, 'e) AfterRenderHook option"
  view :: "view_ref option"
  once :: bool
  erroredOrDestroyed :: bool
  pipelinedValue :: "'v option"

text \<open>
  What the manager does to its surroundings is recorded in a list of events: the hooks it
  invokes (sequence, phase, argument and outcome), the calls \<open>register\<close>,
  \<open>unregister\<close> and \<open>destroy\<close> it receives, the notifications it sends to the
  scheduler and the errors it hands to the \<open>ErrorHandler\<close>.
\<close>

datatype ('v, 'e) event =
  Invoked sequence_ref AfterRenderPhase "'v option" "'e + 'v option"
  | Registered sequence_ref
  | Unregistered sequence_ref
  | Destroyed sequence_ref
  | Notified NotificationSource
  | Handled 'e

text \<open>
  The state: the fields of \<open>AfterRenderImpl\<close>, the heap of sequence objects, the
  \<open>AFTER_RENDER_SEQUENCES_TO_REGISTER\<close> slot of every view, and the events so far.
  \<open>errorHandler\<close> is \<open>None\<close> when no \<open>ErrorHandler\<close> was injected. An injected
  handler is user code as well: \<open>handleError\<close> either returns (\<open>None\<close>) or throws an error
  of its own. \<open>scheduler.notify\<close> is a call to a collaborator that returns normally;
  \<open>ngZone.runOutsideAngular\<close> calls its argument.
\<close>

record ('v, 'e) manager =
  errorHandler :: "('e \<Rightarrow> 'e option) option"
  sequences :: "sequence_ref js_set"
  deferredRegistrations :: "sequence_ref js_set"
  executing :: bool
  objects :: "sequence_ref \<Rightarrow> ('v, 'e) AfterRenderSequence"
  views :: "view_ref \<Rightarrow> sequence_ref list option"
  events :: "('v, 'e) event list"

definition emit :: "('v, 'e) event \<Rightarrow> ('v, 'e) manager \<Rightarrow> ('v, 'e) manager" where
  "emit e m = m\<lparr>events := events m @ [e]\<rparr>"

definition modify ::
  "sequence_ref \<Rightarrow> (('v, 'e) AfterRenderSequence \<Rightarrow> ('v, 'e) AfterRenderSequence) \<Rightarrow>
   ('v, 'e) manager \<Rightarrow> ('v, 'e) manager" where
  "modify s f m = m\<lparr>objects := (objects m)(s := f (objects m s))\<rparr>"

subsection \<open>The operations\<close>

definition register :: "sequence_ref \<Rightarrow> ('v, 'e) manager \<Rightarrow> ('v, 'e) manager" where
  "register s m0 =
     (let m = emit (Registered s) m0 in
      if \<not> executing m then
        emit (Notified RenderHook) (m\<lparr>sequences := set_add s (sequences m)\<rparr>)
      else
        m\<lparr>deferredRegistrations := set_add s (deferredRegistrations m)\<rparr>)"

definition unregister :: "sequence_ref \<Rightarrow> ('v, 'e) manager \<Rightarrow> ('v, 'e) manager" where
  "unregister s m0 =
     (let m = emit (Unregistered s) m0 in
      if executing m \<and> set_has (sequences m) s then
        modify s (\<lambda>sequence. sequence\<lparr>erroredOrDestroyed := True, pipelinedValue := None,
                                       once := True\<rparr>) m
      else
        m\<lparr>sequences := set_delete s (sequences m),
          deferredRegistrations := set_delete s (deferredRegistrations m)\<rparr>)"

definition afterRun :: "sequence_ref \<Rightarrow> ('v, 'e) manager \<Rightarrow> ('v, 'e) manager" where
  "afterRun s m =
     modify s (\<lambda>sequence. sequence\<lparr>erroredOrDestroyed := False, pipelinedValue := None\<rparr>) m"

text \<open>
  \<open>unregisterOnDestroy\<close> removes the destroy callback from the \<open>DestroyRef\<close>, which is
  not part of the state.
\<close>

definition destroy :: "sequence_ref \<Rightarrow> ('v, 'e) manager \<Rightarrow> ('v, 'e) manager" where
  "destroy s m0 =
     (let m = unregister s (emit (Destroyed s) m0) in
      case view (objects m s) of
        None \<Rightarrow> m
      | Some v \<Rightarrow>
          (case views m v of
             None \<Rightarrow> m
           | Some scheduled \<Rightarrow> m\<lparr>views := (views m)(v := Some (filter (\<lambda>x. x \<noteq> s) scheduled))\<rparr>))"

fun perform :: "manager_call \<Rightarrow> ('v, 'e) manager \<Rightarrow> ('v, 'e) manager" where
  "perform (Register s) m = register s m"
| "perform (Unregister s) m = unregister s m"
| "perform (Destroy s) m = destroy s m"

text \<open>
  How a piece of \<open>execute\<close> ends: it returns, or an exception leaves it; either way with
  the state as it is at that moment.
\<close>

datatype ('v, 'e) completion = Returned "('v, 'e) manager" | Thrown 'e "('v, 'e) manager"

fun state_of :: "('v, 'e) completion \<Rightarrow> ('v, 'e) manager" where
  "state_of (Returned m) = m"
| "state_of (Thrown err m) = m"

fun returned :: "('v, 'e) completion \<Rightarrow> bool" where
  "returned (Returned m) = True"
| "returned (Thrown err m) = False"

fun thrown :: "('v, 'e) completion \<Rightarrow> 'e option" where
  "thrown (Returned m) = None"
| "thrown (Thrown err m) = Some err"

text \<open>
  After the hook has run: its value becomes the pipelined value of the sequence, or the
  \<open>catch\<close> block marks the sequence and hands the error to the handler, if there is one.
  The call of \<open>handleError\<close> is not guarded: what the handler throws leaves the
  \<open>catch\<close> block and \<open>execute\<close>.
\<close>

definition settle ::
  "sequence_ref \<Rightarrow> 'e + 'v option \<Rightarrow> ('v, 'e) manager \<Rightarrow> ('v, 'e) completion" where
  "settle s out m =
     (case out of
        Inr v \<Rightarrow> Returned (modify s (\<lambda>sequence. sequence\<lparr>pipelinedValue := v\<rparr>) m)
      | Inl err \<Rightarrow>
          (let m1 = modify s (\<lambda>sequence. sequence\<lparr>erroredOrDestroyed := True\<rparr>) m in
           case errorHandler m1 of
             None \<Rightarrow> Returned m1
           | Some handleError \<Rightarrow>
               (let m2 = emit (Handled err) m1 in
                case handleError err of
                  None \<Rightarrow> Returned m2
                | Some err' \<Rightarrow> Thrown err' m2)))"

text \<open>The body of the inner loop of \<open>execute\<close>, for the sequence \<open>s\<close> in phase \<open>p\<close>.\<close>

definition invoke ::
  "AfterRenderPhase \<Rightarrow> sequence_ref \<Rightarrow> ('v, 'e) manager \<Rightarrow> ('v, 'e) completion" where
  "invoke p s m =
     (if erroredOrDestroyed (objects m s) then Returned m
      else case hooks (objects m s) p of
        None \<Rightarrow> Returned m
      | Some hook \<Rightarrow>
          (let arg = pipelinedValue (objects m s);
               run = hook arg;
               m1 = emit (Invoked s p arg (outcome run)) m;
               m2 = fold perform (calls run) m1
           in settle s (outcome run) m2))"

text \<open>
  The inner loop, from entry \<open>i\<close> of \<open>sequences\<close> on. An exception ends it. Its body can
  grow the set it iterates over (when \<open>executing\<close> is false), so the loop is a partial
  function: \<open>None\<close> is a loop that does not end.
\<close>

partial_function (option) run_phase ::
  "AfterRenderPhase \<Rightarrow> nat \<Rightarrow> ('v, 'e) manager \<Rightarrow> ('v, 'e) completion option" where
  "run_phase p i m =
     (if i < length (sequences m) then
        (case sequences m ! i of
           None \<Rightarrow> run_phase p (Suc i) m
         | Some s \<Rightarrow>
             (case invoke p s m of
                Returned m' \<Rightarrow> run_phase p (Suc i) m'
              | Thrown err m' \<Rightarrow> Some (Thrown err m')))
      else Some (Returned m))"

declare run_phase.simps [code]

text \<open>What follows a piece that returned does not happen after one that threw.\<close>

definition continue ::
  "('v, 'e) completion option \<Rightarrow> (('v, 'e) manager \<Rightarrow> ('v, 'e) completion option) \<Rightarrow>
   ('v, 'e) completion option" where
  "continue r f =
     (case r of
        None \<Rightarrow> None
      | Some (Returned m) \<Rightarrow> f m
      | Some (Thrown err m) \<Rightarrow> Some (Thrown err m))"

fun run_phases ::
  "AfterRenderPhase list \<Rightarrow> ('v, 'e) manager \<Rightarrow> ('v, 'e) completion option" where
  "run_phases [] m = Some (Returned m)"
| "run_phases (p # ps) m = continue (run_phase p 0 m) (run_phases ps)"

text \<open>Field lemmas used by the termination proof of the cleanup loop, and throughout.\<close>

lemma length_set_delete [simp]: "length (set_delete x es) = length es"
  by (simp add: set_delete_def)

lemma emit_fields [simp]:
  "errorHandler (emit e m) = errorHandler m"
  "sequences (emit e m) = sequences m"
  "deferredRegistrations (emit e m) = deferredRegistrations m"
  "executing (emit e m) = executing m"
  "objects (emit e m) = objects m"
  "views (emit e m) = views m"
  "events (emit e m) = events m @ [e]"
  by (simp_all add: emit_def)

lemma modify_fields [simp]:
  "errorHandler (modify s f m) = errorHandler m"
  "sequences (modify s f m) = sequences m"
  "deferredRegistrations (modify s f m) = deferredRegistrations m"
  "executing (modify s f m) = executing m"
  "objects (modify s f m) = (objects m)(s := f (objects m s))"
  "views (modify s f m) = views m"
  "events (modify s f m) = events m"
  by (simp_all add: modify_def)

lemma unregister_length [simp]: "length (sequences (unregister s m)) = length (sequences m)"
  by (simp add: unregister_def Let_def)

lemma destroy_length [simp]: "length (sequences (destroy s m)) = length (sequences m)"
  by (simp add: destroy_def Let_def split: option.splits)

lemma afterRun_sequences [simp]: "sequences (afterRun s m) = sequences m"
  by (simp add: afterRun_def)

text \<open>
  The body of the cleanup loop. By now \<open>executing\<close> is false, so that the
  \<open>unregister\<close> inside \<open>destroy\<close> deletes the sequence from both sets.
\<close>

definition cleanup_step :: "sequence_ref \<Rightarrow> ('v, 'e) manager \<Rightarrow> ('v, 'e) manager" where
  "cleanup_step s m =
     (let m1 = afterRun s m in
      if once (objects m1 s) then
        destroy s (m1\<lparr>sequences := set_delete s (sequences m1)\<rparr>)
      else m1)"

lemma cleanup_step_length [simp]:
  "length (sequences (cleanup_step s m)) = length (sequences m)"
  by (simp add: cleanup_step_def Let_def)

text \<open>The cleanup loop, from entry \<open>i\<close> of \<open>sequences\<close> on.\<close>

function cleanup :: "nat \<Rightarrow> ('v, 'e) manager \<Rightarrow> ('v, 'e) manager" where
  "cleanup i m =
     (if i < length (sequences m) then
        (case sequences m ! i of
           None \<Rightarrow> cleanup (Suc i) m
         | Some s \<Rightarrow> cleanup (Suc i) (cleanup_step s m))
      else m)"
  by pat_completeness auto
termination
  by (relation "measure (\<lambda>(i, m). length (sequences m) - i)") auto

declare cleanup.simps [simp del]

text \<open>The loop that moves the deferred registrations into the active set.\<close>

function flush :: "nat \<Rightarrow> ('v, 'e) manager \<Rightarrow> ('v, 'e) manager" where
  "flush i m =
     (if i < length (deferredRegistrations m) then
        (case deferredRegistrations m ! i of
           None \<Rightarrow> flush (Suc i) m
         | Some s \<Rightarrow> flush (Suc i) (m\<lparr>sequences := set_add s (sequences m)\<rparr>))
      else m)"
  by pat_completeness auto
termination
  by (relation "measure (\<lambda>(i, m). length (deferredRegistrations m) - i)") auto

declare flush.simps [simp del]

text \<open>\<open>execute\<close> from \<open>this.executing = false\<close> to its end.\<close>

definition after_phases :: "('v, 'e) manager \<Rightarrow> ('v, 'e) manager" where
  "after_phases m0 =
     (let m1 = m0\<lparr>executing := False\<rparr>;
          m2 = cleanup 0 m1;
          m3 = flush 0 m2;
          m4 = (if set_size (deferredRegistrations m3) > 0
                then emit (Notified DeferredRenderHook) m3 else m3)
      in m4\<lparr>deferredRegistrations := set_clear (deferredRegistrations m4)\<rparr>)"

text \<open>
  The end of \<open>execute\<close>: after phases that returned, the rest runs; an exception from the
  phases leaves \<open>execute\<close> at once, with \<open>executing\<close> still true.
\<close>

fun finish :: "('v, 'e) completion \<Rightarrow> ('v, 'e) completion" where
  "finish (Returned m) = Returned (after_phases m)"
| "finish (Thrown err m) = Thrown err m"

definition execute :: "('v, 'e) manager \<Rightarrow> ('v, 'e) completion option" where
  "execute m = map_option finish (run_phases AFTER_RENDER_PHASES (m\<lparr>executing := True\<rparr>))"



subsection \<open>An example manager\<close>

text \<open>
  Sequence 0 is a permanent sequence with hooks in three phases that pipe a number along.
  Sequence 1 is one-shot; its write hook registers sequence 2 and unregisters sequence 3.
  Sequence 3 has hooks in the first and the last phase. Sequence 4 throws in its write
  hook and has a read hook. Sequence 2 is not active at first. The error handler returns.
\<close>

definition no_hooks :: "AfterRenderPhase \<Rightarrow> (int, string) AfterRenderHook option" where
  "no_hooks = (\<lambda>p. None)"

definition returning :: "(int option \<Rightarrow> int option) \<Rightarrow> (int, string) AfterRenderHook" where
  "returning f = (\<lambda>v. \<lparr>calls = [], outcome = Inr (f v)\<rparr>)"

definition boom :: "(int, string) AfterRenderHook" where
  "boom = (\<lambda>v. \<lparr>calls = [], outcome = Inl ''boom''\<rparr>)"

definition example_sequence :: "sequence_ref \<Rightarrow> (int, string) AfterRenderSequence" where
  "example_sequence s =
     \<lparr>hooks =
        (if s = 0 then
           no_hooks(EarlyRead := Some (returning (\<lambda>v. Some 10)),
                    Write := Some (returning (map_option (\<lambda>x. x + 1))),
                    Read := Some (returning (map_option (\<lambda>x. 2 * x))))
         else if s = 1 then
           no_hooks(Write := Some (\<lambda>v. \<lparr>calls = [Register 2, Unregister 3],
                                         outcome = Inr None\<rparr>))
         else if s = 2 then
           no_hooks(Read := Some (returning (\<lambda>v. Some 5)))
         else if s = 3 then
           no_hooks(EarlyRead := Some (returning (\<lambda>v. Some 1)),
                    Read := Some (returning (\<lambda>v. Some 2)))
         else if s = 4 then
           no_hooks(Write := Some boom,
                    Read := Some (returning (\<lambda>v. Some 4)))
         else no_hooks),
      view = None,
      once = (s = 1),
      erroredOrDestroyed = False,
      pipelinedValue = None\<rparr>"

definition example_manager :: "(int, string) manager" where
  "example_manager =
     \<lparr>errorHandler = Some (\<lambda>err. None),
      sequences = [Some 0, Some 1, Some 3, Some 4],
      deferredRegistrations = [],
      executing = False,
      objects = example_sequence,
      views = (\<lambda>v. None),
      events = []\<rparr>"


text \<open>The same with an error handler that throws the error it is given.\<close>

definition rethrowing_example :: "(int, string) manager" where
  "rethrowing_example = example_manager\<lparr>errorHandler := Some (\<lambda>err. Some err)\<rparr>"


text \<open>One execution of the example, evaluated.\<close>

lemma example_execute:
  "map_option thrown (execute example_manager) = Some None"
  "map_option (\<lambda>r. events (state_of r)) (execute example_manager) = Some
    [Invoked 0 EarlyRead None (Inr (Some 10)),
     Invoked 3 EarlyRead None (Inr (Some 1)),
     Invoked 0 Write (Some 10) (Inr (Some 11)),
     Invoked 1 Write None (Inr None), Registered 2, Unregistered 3,
     Invoked 4 Write None (Inl ''boom''), Handled ''boom'',
     Invoked 0 Read (Some 11) (Inr (Some 22)),
     Destroyed 1, Unregistered 1, Destroyed 3, Unregistered 3,
     Notified DeferredRenderHook]"
  "map_option (\<lambda>r. sequences (state_of r)) (execute example_manager)
     = Some [Some 0, None, None, Some 4, Some 2]"
  "map_option (\<lambda>r. deferredRegistrations (state_of r)) (execute example_manager) = Some [None]"
  "map_option (\<lambda>r. executing (state_of r)) (execute example_manager) = Some False"
  by code_simp+

text \<open>
  With the handler that throws, the execution ends at the hook that throws: the read hook
  of sequence 0 does not run, nothing is cleaned up, and \<open>executing\<close> stays true.
\<close>

lemma rethrowing_example_execute:
  "map_option thrown (execute rethrowing_example) = Some (Some ''boom'')"
  "map_option (\<lambda>r. events (state_of r)) (execute rethrowing_example) = Some
    [Invoked 0 EarlyRead None (Inr (Some 10)),
     Invoked 3 EarlyRead None (Inr (Some 1)),
     Invoked 0 Write (Some 10) (Inr (Some 11)),
     Invoked 1 Write None (Inr None), Registered 2, Unregistered 3,
     Invoked 4 Write None (Inl ''boom''), Handled ''boom'']"
  "map_option (\<lambda>r. sequences (state_of r)) (execute rethrowing_example)
     = Some [Some 0, Some 1, Some 3, Some 4]"
  "map_option (\<lambda>r. deferredRegistrations (state_of r)) (execute rethrowing_example)
     = Some [Some 2]"
  "map_option (\<lambda>r. executing (state_of r)) (execute rethrowing_example) = Some True"
  by code_simp+

subsection \<open>The event list is write-only\<close>

text \<open>
  No operation reads the events: an operation on a state with a longer history does the same
  and leaves the same history extended by the same events.
\<close>

definition prepend :: "('v, 'e) event list \<Rightarrow> ('v, 'e) manager \<Rightarrow> ('v, 'e) manager" where
  "prepend ev m = m\<lparr>events := ev @ events m\<rparr>"

lemma prepend_fields [simp]:
  "errorHandler (prepend ev m) = errorHandler m"
  "sequences (prepend ev m) = sequences m"
  "deferredRegistrations (prepend ev m) = deferredRegistrations m"
  "executing (prepend ev m) = executing m"
  "objects (prepend ev m) = objects m"
  "views (prepend ev m) = views m"
  "events (prepend ev m) = ev @ events m"
  by (simp_all add: prepend_def)

lemma prepend_updates:
  "(prepend ev m)\<lparr>sequences := a\<rparr> = prepend ev (m\<lparr>sequences := a\<rparr>)"
  "(prepend ev m)\<lparr>deferredRegistrations := b\<rparr> = prepend ev (m\<lparr>deferredRegistrations := b\<rparr>)"
  "(prepend ev m)\<lparr>executing := c\<rparr> = prepend ev (m\<lparr>executing := c\<rparr>)"
  "(prepend ev m)\<lparr>views := d\<rparr> = prepend ev (m\<lparr>views := d\<rparr>)"
  by (simp_all add: prepend_def)

lemma prepend_emit: "emit e (prepend ev m) = prepend ev (emit e m)"
  by (simp add: prepend_def emit_def)

lemma prepend_modify: "modify s f (prepend ev m) = prepend ev (modify s f m)"
  by (simp add: prepend_def modify_def)

lemma prepend_register: "register s (prepend ev m) = prepend ev (register s m)"
  by (simp add: register_def Let_def prepend_def emit_def)

lemma prepend_unregister: "unregister s (prepend ev m) = prepend ev (unregister s m)"
  by (simp add: unregister_def Let_def prepend_def emit_def modify_def)

lemma prepend_destroy: "destroy s (prepend ev m) = prepend ev (destroy s m)"
  by (simp add: destroy_def Let_def prepend_emit prepend_unregister prepend_updates
      split: option.splits)

lemma prepend_perform: "perform c (prepend ev m) = prepend ev (perform c m)"
  by (cases c) (simp_all add: prepend_register prepend_unregister prepend_destroy)

lemma prepend_fold_perform: "fold perform cs (prepend ev m) = prepend ev (fold perform cs m)"
  by (induction cs arbitrary: m) (simp_all add: prepend_perform)

text \<open>A change of the state, whichever way the piece ended.\<close>

fun map_state ::
  "(('v, 'e) manager \<Rightarrow> ('v, 'e) manager) \<Rightarrow> ('v, 'e) completion \<Rightarrow> ('v, 'e) completion" where
  "map_state f (Returned m) = Returned (f m)"
| "map_state f (Thrown err m) = Thrown err (f m)"

lemma state_of_map_state [simp]: "state_of (map_state f r) = f (state_of r)"
  by (cases r) simp_all

lemma returned_map_state [simp]: "returned (map_state f r) = returned r"
  by (cases r) simp_all

lemma thrown_map_state [simp]: "thrown (map_state f r) = thrown r"
  by (cases r) simp_all

lemma continue_simps [simp]:
  "continue None f = None"
  "continue (Some (Returned m)) f = f m"
  "continue (Some (Thrown err m)) f = Some (Thrown err m)"
  by (simp_all add: continue_def)

lemma finish_map_state:
  "(\<And>x. after_phases (f x) = f (after_phases x)) \<Longrightarrow> finish (map_state f r) = map_state f (finish r)"
  by (cases r) simp_all

lemma state_of_finish:
  "state_of (finish r) = (if returned r then after_phases (state_of r) else state_of r)"
  by (cases r) simp_all

lemma returned_finish [simp]: "returned (finish r) = returned r"
  by (cases r) simp_all

lemma thrown_finish [simp]: "thrown (finish r) = thrown r"
  by (cases r) simp_all

lemma prepend_settle: "settle s out (prepend ev m) = map_state (prepend ev) (settle s out m)"
  by (cases out)
     (simp_all add: settle_def Let_def prepend_modify prepend_emit modify_def
       split: option.splits)

lemma prepend_invoke: "invoke p s (prepend ev m) = map_state (prepend ev) (invoke p s m)"
  by (simp add: invoke_def Let_def prepend_emit prepend_fold_perform prepend_settle
      split: option.splits)

lemma prepend_afterRun: "afterRun s (prepend ev m) = prepend ev (afterRun s m)"
  by (simp add: afterRun_def prepend_modify)

lemma prepend_cleanup_step: "cleanup_step s (prepend ev m) = prepend ev (cleanup_step s m)"
  by (simp add: cleanup_step_def Let_def prepend_afterRun prepend_updates prepend_destroy)

lemma prepend_cleanup: "cleanup i (prepend ev m) = prepend ev (cleanup i m)"
proof (induction i m rule: cleanup.induct)
  case (1 i m)
  show ?case
  proof (cases "i < length (sequences m)")
    case False
    then show ?thesis by (simp add: cleanup.simps[of i])
  next
    case True
    show ?thesis
    proof (cases "sequences m ! i")
      case None
      with True 1(1) show ?thesis by (simp add: cleanup.simps[of i])
    next
      case (Some s)
      with True 1(2) show ?thesis
        by (simp add: cleanup.simps[of i] prepend_cleanup_step)
    qed
  qed
qed

lemma prepend_flush: "flush i (prepend ev m) = prepend ev (flush i m)"
proof (induction i m rule: flush.induct)
  case (1 i m)
  show ?case
  proof (cases "i < length (deferredRegistrations m)")
    case False
    then show ?thesis by (simp add: flush.simps[of i])
  next
    case True
    show ?thesis
    proof (cases "deferredRegistrations m ! i")
      case None
      with True 1(1) show ?thesis by (simp add: flush.simps[of i])
    next
      case (Some s)
      have upd: "(prepend ev m)\<lparr>sequences := set_add s (sequences m)\<rparr>
          = prepend ev (m\<lparr>sequences := set_add s (sequences m)\<rparr>)"
        by (simp add: prepend_def)
      from 1(2)[OF True Some] True Some show ?thesis
        by (simp add: flush.simps[of i] upd)
    qed
  qed
qed

lemma prepend_after_phases: "after_phases (prepend ev m) = prepend ev (after_phases m)"
proof -
  have a: "(prepend ev m)\<lparr>executing := False\<rparr> = prepend ev (m\<lparr>executing := False\<rparr>)"
    by (simp add: prepend_def)
  have b: "(prepend ev x)\<lparr>deferredRegistrations := d\<rparr> = prepend ev (x\<lparr>deferredRegistrations := d\<rparr>)"
    for x :: "('a, 'b) manager" and d
    by (simp add: prepend_def)
  show ?thesis
    by (simp add: after_phases_def Let_def a prepend_cleanup prepend_flush prepend_emit b)
qed

subsection \<open>What a hook can change while the manager executes\<close>

lemma set_delete_absent: "\<not> set_has es x \<Longrightarrow> set_delete x es = es"
  by (auto simp: set_has_def set_delete_def intro: map_idI)

lemma perform_executing [simp]: "executing (perform c m) = executing m"
  by (cases c) (simp_all add: register_def unregister_def destroy_def Let_def split: option.splits)

lemma perform_errorHandler [simp]: "errorHandler (perform c m) = errorHandler m"
  by (cases c) (simp_all add: register_def unregister_def destroy_def Let_def split: option.splits)

lemma perform_sequences: "executing m \<Longrightarrow> sequences (perform c m) = sequences m"
  by (cases c)
     (simp_all add: register_def unregister_def destroy_def Let_def set_delete_absent
       split: option.splits)

lemma fold_perform_executing [simp]: "executing (fold perform cs m) = executing m"
  by (induction cs arbitrary: m) simp_all

lemma fold_perform_errorHandler [simp]: "errorHandler (fold perform cs m) = errorHandler m"
  by (induction cs arbitrary: m) simp_all

lemma fold_perform_sequences: "executing m \<Longrightarrow> sequences (fold perform cs m) = sequences m"
  by (induction cs arbitrary: m) (simp_all add: perform_sequences)

lemma settle_fields [simp]:
  "executing (state_of (settle s out m)) = executing m"
  "sequences (state_of (settle s out m)) = sequences m"
  "deferredRegistrations (state_of (settle s out m)) = deferredRegistrations m"
  "errorHandler (state_of (settle s out m)) = errorHandler m"
  "views (state_of (settle s out m)) = views m"
  by (auto simp: settle_def Let_def modify_def split: sum.splits option.splits)

lemma invoke_executing [simp]: "executing (state_of (invoke p s m)) = executing m"
  by (simp add: invoke_def Let_def split: option.splits)

lemma invoke_errorHandler [simp]: "errorHandler (state_of (invoke p s m)) = errorHandler m"
  by (simp add: invoke_def Let_def split: option.splits)

lemma invoke_sequences: "executing m \<Longrightarrow> sequences (state_of (invoke p s m)) = sequences m"
  by (simp add: invoke_def Let_def fold_perform_sequences split: option.splits)

subsection \<open>Loop rules\<close>

text \<open>
  While the manager executes, the inner loop ends, and the set it iterates over stays as it
  is. An invariant of the loop body, which may depend on the position, holds at the end if
  no turn throws; what holds after a turn that throws holds at the end otherwise.
\<close>

lemma run_phase_rule:
  assumes "I i m" "executing m" "sequences m = E"
    and step: "\<And>j m s. I j m \<Longrightarrow> executing m \<Longrightarrow> sequences m = E \<Longrightarrow> j < length E \<Longrightarrow>
                 E ! j = Some s \<Longrightarrow>
                 (case invoke p s m of Returned m' \<Rightarrow> I (Suc j) m' | Thrown err m' \<Rightarrow> Q err m')"
    and skip: "\<And>j m. I j m \<Longrightarrow> executing m \<Longrightarrow> sequences m = E \<Longrightarrow> j < length E \<Longrightarrow>
                 E ! j = None \<Longrightarrow> I (Suc j) m"
  shows "\<exists>r. run_phase p i m = Some r \<and> executing (state_of r) \<and> sequences (state_of r) = E \<and>
             (case r of Returned m' \<Rightarrow> I (max i (length E)) m' | Thrown err m' \<Rightarrow> Q err m')"
  using assms(1-3)
proof (induction "length E - i" arbitrary: i m)
  case 0
  then have "run_phase p i m = Some (Returned m)" "max i (length E) = i"
    by (simp_all add: run_phase.simps[of p i m])
  with 0 show ?case by simp
next
  case (Suc n)
  then have lt: "i < length E" by simp
  have mx: "max (Suc i) (length E) = max i (length E)" using lt by simp
  have n: "n = length E - Suc i" using Suc.hyps(2) by simp
  show ?case
  proof (cases "E ! i")
    case None
    have "I (Suc i) m" using skip Suc.prems lt None by blast
    then obtain r where "run_phase p (Suc i) m = Some r"
      "executing (state_of r)" "sequences (state_of r) = E"
      "case r of Returned m' \<Rightarrow> I (max (Suc i) (length E)) m' | Thrown err m' \<Rightarrow> Q err m'"
      using Suc.hyps(1)[of "Suc i" m] Suc.prems n by blast
    moreover have "run_phase p i m = run_phase p (Suc i) m"
      using lt None Suc.prems by (simp add: run_phase.simps[of p i m])
    ultimately show ?thesis by (auto simp: mx split: completion.splits)
  next
    case (Some s)
    have st: "case invoke p s m of Returned m' \<Rightarrow> I (Suc i) m' | Thrown err m' \<Rightarrow> Q err m'"
      using step Suc.prems lt Some by blast
    have fr: "executing (state_of (invoke p s m))" "sequences (state_of (invoke p s m)) = E"
      using Suc.prems by (simp_all add: invoke_sequences)
    show ?thesis
    proof (cases "invoke p s m")
      case (Returned m1)
      with st fr have "I (Suc i) m1" "executing m1" "sequences m1 = E" by simp_all
      then obtain r where "run_phase p (Suc i) m1 = Some r"
        "executing (state_of r)" "sequences (state_of r) = E"
        "case r of Returned m' \<Rightarrow> I (max (Suc i) (length E)) m' | Thrown err m' \<Rightarrow> Q err m'"
        using Suc.hyps(1)[of "Suc i" m1] n by blast
      moreover have "run_phase p i m = run_phase p (Suc i) m1"
        using lt Some Suc.prems Returned by (simp add: run_phase.simps[of p i m])
      ultimately show ?thesis by (auto simp: mx split: completion.splits)
    next
      case (Thrown err m1)
      have "run_phase p i m = Some (Thrown err m1)"
        using lt Some Suc.prems Thrown by (simp add: run_phase.simps[of p i m])
      with st fr Thrown show ?thesis by simp
    qed
  qed
qed

text \<open>The same for an invariant that depends neither on the position nor on the way a turn ends.\<close>

lemma run_phase_inv:
  assumes "I m" "executing m"
    and step: "\<And>m s. I m \<Longrightarrow> executing m \<Longrightarrow> set_has (sequences m) s \<Longrightarrow>
                 I (state_of (invoke p s m))"
  shows "\<exists>r. run_phase p i m = Some r \<and> I (state_of r) \<and> executing (state_of r) \<and>
             sequences (state_of r) = sequences m"
proof -
  have "\<exists>r. run_phase p i m = Some r \<and> executing (state_of r) \<and>
          sequences (state_of r) = sequences m \<and>
          (case r of Returned m' \<Rightarrow> (\<lambda>j. I) (max i (length (sequences m))) m'
           | Thrown err m' \<Rightarrow> (\<lambda>err. I) err m')"
  proof (rule run_phase_rule[where I = "\<lambda>j. I" and Q = "\<lambda>err. I"])
    fix j m' s
    assume "I m'" "executing m'" "sequences m' = sequences m" "j < length (sequences m)"
      "sequences m ! j = Some s"
    moreover from this have "set_has (sequences m') s"
      by (metis nth_mem set_has_def)
    ultimately have "I (state_of (invoke p s m'))" using step by blast
    then show "case invoke p s m' of Returned m' \<Rightarrow> I m' | Thrown err m' \<Rightarrow> I m'"
      by (cases "invoke p s m'") simp_all
  qed (use assms in simp_all)
  then obtain r where r: "run_phase p i m = Some r" "executing (state_of r)"
    "sequences (state_of r) = sequences m"
    "case r of Returned m' \<Rightarrow> I m' | Thrown err m' \<Rightarrow> I m'" by blast
  from r(4) have "I (state_of r)" by (cases r) simp_all
  with r show ?thesis by blast
qed

lemma run_phases_inv:
  assumes "I m" "executing m"
    and step: "\<And>p m s. I m \<Longrightarrow> executing m \<Longrightarrow> set_has (sequences m) s \<Longrightarrow>
                 I (state_of (invoke p s m))"
  shows "\<exists>r. run_phases ps m = Some r \<and> I (state_of r) \<and> executing (state_of r) \<and>
             sequences (state_of r) = sequences m"
  using assms(1,2)
proof (induction ps arbitrary: m)
  case Nil
  then show ?case by simp
next
  case (Cons p ps)
  obtain r1 where r1: "run_phase p 0 m = Some r1" "I (state_of r1)" "executing (state_of r1)"
    "sequences (state_of r1) = sequences m"
    using run_phase_inv[of I m p 0] Cons.prems step by blast
  show ?case
  proof (cases r1)
    case (Returned m1)
    with r1 have m1: "I m1" "executing m1" "sequences m1 = sequences m" by simp_all
    obtain r where "run_phases ps m1 = Some r" "I (state_of r)" "executing (state_of r)"
      "sequences (state_of r) = sequences m1"
      using Cons.IH[OF m1(1,2)] by blast
    with r1 m1 Returned show ?thesis by simp
  next
    case (Thrown err m1)
    with r1 show ?thesis by simp
  qed
qed


subsection \<open>The loops and the event list\<close>

lemma prepend_run_phase:
  "executing m \<Longrightarrow>
   run_phase p i (prepend ev m) = map_option (map_state (prepend ev)) (run_phase p i m)"
proof (induction "length (sequences m) - i" arbitrary: i m)
  case 0
  then show ?case
    by (simp add: run_phase.simps[of p i m] run_phase.simps[of p i "prepend ev m"])
next
  case (Suc n)
  then have lt: "i < length (sequences m)" by simp
  show ?case
  proof (cases "sequences m ! i")
    case None
    have "run_phase p (Suc i) (prepend ev m)
          = map_option (map_state (prepend ev)) (run_phase p (Suc i) m)"
      using Suc.hyps(1)[of m "Suc i"] Suc.hyps(2) Suc.prems by simp
    with lt None show ?thesis
      by (simp add: run_phase.simps[of p i m] run_phase.simps[of p i "prepend ev m"])
  next
    case (Some s)
    show ?thesis
    proof (cases "invoke p s m")
      case (Returned m1)
      have fr: "executing (state_of (invoke p s m))"
        "sequences (state_of (invoke p s m)) = sequences m"
        using Suc.prems by (simp_all add: invoke_sequences)
      have "run_phase p (Suc i) (prepend ev m1)
            = map_option (map_state (prepend ev)) (run_phase p (Suc i) m1)"
        using Suc.hyps(1)[of m1 "Suc i"] Suc.hyps(2) fr Returned by simp
      with lt Some Returned show ?thesis
        by (simp add: run_phase.simps[of p i m] run_phase.simps[of p i "prepend ev m"]
            prepend_invoke)
    next
      case (Thrown err m1)
      with lt Some show ?thesis
        by (simp add: run_phase.simps[of p i m] run_phase.simps[of p i "prepend ev m"]
            prepend_invoke)
    qed
  qed
qed

subsection \<open>Totality\<close>

lemma run_phase_total:
  "executing m \<Longrightarrow>
   \<exists>r. run_phase p i m = Some r \<and> executing (state_of r) \<and> sequences (state_of r) = sequences m"
  using run_phase_inv[of "\<lambda>m. True" m p i] by simp

lemma run_phases_total:
  "executing m \<Longrightarrow>
   \<exists>r. run_phases ps m = Some r \<and> executing (state_of r) \<and> sequences (state_of r) = sequences m"
  using run_phases_inv[of "\<lambda>m. True" m ps] by simp

lemma prepend_run_phases:
  "executing m \<Longrightarrow>
   run_phases ps (prepend ev m) = map_option (map_state (prepend ev)) (run_phases ps m)"
proof (induction ps arbitrary: m)
  case Nil
  then show ?case by simp
next
  case (Cons p ps)
  obtain r1 where r1: "run_phase p 0 m = Some r1" "executing (state_of r1)"
    using run_phase_total[OF Cons.prems] by blast
  show ?case
  proof (cases r1)
    case (Returned m1)
    with r1 Cons.IH[of m1] show ?thesis
      by (simp add: prepend_run_phase[OF Cons.prems])
  next
    case (Thrown err m1)
    with r1 show ?thesis by (simp add: prepend_run_phase[OF Cons.prems])
  qed
qed

lemma execute_total: "\<exists>r. execute m = Some r"
proof -
  obtain r1 where "run_phases AFTER_RENDER_PHASES (m\<lparr>executing := True\<rparr>) = Some r1"
    using run_phases_total[of "m\<lparr>executing := True\<rparr>"] by auto
  then show ?thesis by (simp add: execute_def)
qed

lemma prepend_execute:
  "execute (prepend ev m) = map_option (map_state (prepend ev)) (execute m)"
proof -
  have ex: "executing (m\<lparr>executing := True\<rparr>)" by simp
  obtain r1 where r1: "run_phases AFTER_RENDER_PHASES (m\<lparr>executing := True\<rparr>) = Some r1"
    using run_phases_total[OF ex] by blast
  show ?thesis
    using prepend_run_phases[OF ex, of AFTER_RENDER_PHASES ev] r1
    by (simp add: execute_def prepend_updates finish_map_state prepend_after_phases)
qed

lemma prepend_erase: "prepend (events m) (m\<lparr>events := []\<rparr>) = m"
  by (simp add: prepend_def)

subsection \<open>What a hook's calls do while the manager executes\<close>

fun call_events :: "manager_call \<Rightarrow> ('v, 'e) event list" where
  "call_events (Register s) = [Registered s]"
| "call_events (Unregister s) = [Unregistered s]"
| "call_events (Destroy s) = [Destroyed s, Unregistered s]"

definition cancelled :: "manager_call list \<Rightarrow> sequence_ref \<Rightarrow> bool" where
  "cancelled cs t = (Unregister t \<in> set cs \<or> Destroy t \<in> set cs)"

definition mark :: "('v, 'e) AfterRenderSequence \<Rightarrow> ('v, 'e) AfterRenderSequence" where
  "mark sequence = sequence\<lparr>erroredOrDestroyed := True, pipelinedValue := None, once := True\<rparr>"

lemma mark_mark [simp]: "mark (mark x) = mark x"
  by (simp add: mark_def)

lemma cancelled_simps [simp]:
  "cancelled [] t = False"
  "cancelled (c # cs) t = (c = Unregister t \<or> c = Destroy t \<or> cancelled cs t)"
  by (auto simp: cancelled_def)

lemma perform_events: "executing m \<Longrightarrow> events (perform c m) = events m @ call_events c"
  by (cases c) (simp_all add: register_def unregister_def destroy_def Let_def split: option.splits)

lemma fold_perform_events:
  "executing m \<Longrightarrow> events (fold perform cs m) = events m @ concat (map call_events cs)"
  by (induction cs arbitrary: m) (simp_all add: perform_events)

lemma perform_objects:
  "executing m \<Longrightarrow>
   objects (perform c m) t =
     (if (c = Unregister t \<or> c = Destroy t) \<and> set_has (sequences m) t
      then mark (objects m t) else objects m t)"
  by (cases c)
     (auto simp: register_def unregister_def destroy_def Let_def mark_def split: option.splits)

lemma fold_perform_objects:
  "executing m \<Longrightarrow>
   objects (fold perform cs m) t =
     (if cancelled cs t \<and> set_has (sequences m) t then mark (objects m t) else objects m t)"
proof (induction cs arbitrary: m)
  case Nil
  then show ?case by simp
next
  case (Cons c cs)
  have "executing (perform c m)" "sequences (perform c m) = sequences m"
    using Cons.prems by (simp_all add: perform_sequences)
  then show ?case
    using Cons.IH[of "perform c m"] Cons.prems by (simp add: perform_objects)
qed

lemma set_has_add [simp]: "set_has (set_add x es) y \<longleftrightarrow> y = x \<or> set_has es y"
  by (auto simp: set_has_def set_add_def)

lemma set_has_delete [simp]: "set_has (set_delete x es) y \<longleftrightarrow> y \<noteq> x \<and> set_has es y"
  by (auto simp: set_has_def set_delete_def)



lemma cancelled_events:
  "cancelled cs s \<longleftrightarrow> Unregistered s \<in> set (concat (map call_events cs))"
proof (induction cs)
  case Nil
  then show ?case by simp
next
  case (Cons c cs)
  then show ?case by (cases c) auto
qed

subsection \<open>What one turn of the inner loop does\<close>

definition runs :: "AfterRenderPhase \<Rightarrow> sequence_ref \<Rightarrow> ('v, 'e) manager \<Rightarrow> bool" where
  "runs p s m = (\<not> erroredOrDestroyed (objects m s) \<and> hooks (objects m s) p \<noteq> None)"

definition the_run :: "AfterRenderPhase \<Rightarrow> sequence_ref \<Rightarrow> ('v, 'e) manager \<Rightarrow> ('v, 'e) hook_run" where
  "the_run p s m = the (hooks (objects m s) p) (pipelinedValue (objects m s))"

text \<open>The handler, if there is one, returns when it is given the error.\<close>

definition handler_quiet :: "('v, 'e) manager \<Rightarrow> 'e \<Rightarrow> bool" where
  "handler_quiet m err =
     (case errorHandler m of None \<Rightarrow> True | Some handleError \<Rightarrow> handleError err = None)"

definition handled ::
  "('e \<Rightarrow> 'e option) option \<Rightarrow> 'e + 'v option \<Rightarrow> ('v, 'e) event list" where
  "handled h out =
     (case out of
        Inl err \<Rightarrow> (case h of None \<Rightarrow> [] | Some handleError \<Rightarrow> [Handled err])
      | Inr v \<Rightarrow> [])"

text \<open>Whether the \<open>catch\<close> block is left normally after the outcome \<open>out\<close> of a hook.\<close>

definition contained :: "('v, 'e) manager \<Rightarrow> 'e + 'v option \<Rightarrow> bool" where
  "contained m out = (case out of Inl err \<Rightarrow> handler_quiet m err | Inr v \<Rightarrow> True)"

lemma invoke_skip: "\<not> runs p s m \<Longrightarrow> invoke p s m = Returned m"
  by (auto simp: runs_def invoke_def)

lemma invoke_runs:
  "runs p s m \<Longrightarrow>
   invoke p s m =
     settle s (outcome (the_run p s m))
       (fold perform (calls (the_run p s m))
          (emit (Invoked s p (pipelinedValue (objects m s)) (outcome (the_run p s m))) m))"
  by (auto simp: runs_def invoke_def the_run_def Let_def)

lemma settle_events:
  "events (state_of (settle s out m)) = events m @ handled (errorHandler m) out"
  by (auto simp: settle_def handled_def Let_def modify_def emit_def
      split: sum.splits option.splits)

lemma settle_returned: "returned (settle s out m) = contained m out"
  by (auto simp: settle_def contained_def handler_quiet_def Let_def modify_def
      split: sum.splits option.splits)

lemma settle_thrown:
  "thrown (settle s out m) =
     (case out of
        Inl err \<Rightarrow> (case errorHandler m of None \<Rightarrow> None | Some handleError \<Rightarrow> handleError err)
      | Inr v \<Rightarrow> None)"
  by (auto simp: settle_def Let_def modify_def split: sum.splits option.splits)

lemma settle_objects:
  "objects (state_of (settle s out m)) =
     (objects m)(s := (case out of
                         Inr v \<Rightarrow> (objects m s)\<lparr>pipelinedValue := v\<rparr>
                       | Inl err \<Rightarrow> (objects m s)\<lparr>erroredOrDestroyed := True\<rparr>))"
  by (auto simp: settle_def Let_def modify_def emit_def split: sum.splits option.splits)

lemma invoke_returned:
  "returned (invoke p s m) = (runs p s m \<longrightarrow> contained m (outcome (the_run p s m)))"
  by (cases "runs p s m")
     (auto simp: invoke_runs invoke_skip settle_returned contained_def handler_quiet_def
        emit_def split: sum.splits)

lemma invoke_thrown:
  "thrown (invoke p s m) =
     (if runs p s m
      then case outcome (the_run p s m) of
             Inl err \<Rightarrow> (case errorHandler m of None \<Rightarrow> None
                         | Some handleError \<Rightarrow> handleError err)
           | Inr v \<Rightarrow> None
      else None)"
  by (cases "runs p s m")
     (auto simp: invoke_runs invoke_skip settle_thrown emit_def split: sum.splits)

lemma invoke_events:
  assumes "executing m" "runs p s m"
  shows "events (state_of (invoke p s m)) =
           events m @ Invoked s p (pipelinedValue (objects m s)) (outcome (the_run p s m)) #
             concat (map call_events (calls (the_run p s m))) @
             handled (errorHandler m) (outcome (the_run p s m))"
  using assms by (simp add: invoke_runs settle_events fold_perform_events)

lemma invoke_objects_other:
  assumes "executing m" "t \<noteq> s"
  shows "objects (state_of (invoke p s m)) t =
           (if runs p s m \<and> cancelled (calls (the_run p s m)) t \<and> set_has (sequences m) t
            then mark (objects m t) else objects m t)"
proof (cases "runs p s m")
  case True
  with assms show ?thesis
    by (simp add: invoke_runs settle_objects fold_perform_objects)
next
  case False
  then show ?thesis by (simp add: invoke_skip)
qed

lemma invoke_objects_self:
  assumes "executing m" "runs p s m"
  shows "objects (state_of (invoke p s m)) s =
           (let x = (if cancelled (calls (the_run p s m)) s \<and> set_has (sequences m) s
                     then mark (objects m s) else objects m s)
            in case outcome (the_run p s m) of
                 Inr v \<Rightarrow> x\<lparr>pipelinedValue := v\<rparr>
               | Inl err \<Rightarrow> x\<lparr>erroredOrDestroyed := True\<rparr>)"
  using assms
  by (simp add: invoke_runs settle_objects fold_perform_objects Let_def split: sum.splits)

text \<open>No turn changes the hooks of a sequence or clears one of its flags.\<close>

lemma invoke_hooks:
  "executing m \<Longrightarrow> hooks (objects (state_of (invoke p s m)) t) = hooks (objects m t)"
  by (cases "t = s"; cases "runs p s m")
     (auto simp: invoke_objects_other invoke_objects_self invoke_skip mark_def Let_def
       split: sum.splits)



subsection \<open>What the cleanup and the flush do\<close>

definition reset :: "('v, 'e) AfterRenderSequence \<Rightarrow> ('v, 'e) AfterRenderSequence" where
  "reset sequence = sequence\<lparr>erroredOrDestroyed := False, pipelinedValue := None\<rparr>"

definition without :: "'a set \<Rightarrow> 'a js_set \<Rightarrow> 'a js_set" where
  "without K es = map (\<lambda>e. if e \<in> Some ` K then None else e) es"

definition visited :: "'a js_set \<Rightarrow> nat \<Rightarrow> 'a set" where
  "visited es j = {t. \<exists>k<j. k < length es \<and> es ! k = Some t}"

lemma reset_reset [simp]: "reset (reset x) = reset x"
  by (simp add: reset_def)

lemma once_reset [simp]: "once (reset x) = once x"
  by (simp add: reset_def)

lemma without_empty [simp]: "without {} es = es"
  by (simp add: without_def)

lemma length_without [simp]: "length (without K es) = length es"
  by (simp add: without_def)

lemma set_delete_without: "set_delete s (without K es) = without (insert s K) es"
  by (auto simp: set_delete_def without_def)

lemma set_has_without [simp]: "set_has (without K es) t \<longleftrightarrow> set_has es t \<and> t \<notin> K"
  by (auto simp: set_has_def without_def)

lemma visited_0 [simp]: "visited es 0 = {}"
  by (simp add: visited_def)

lemma visited_Suc_Some:
  "j < length es \<Longrightarrow> es ! j = Some s \<Longrightarrow> visited es (Suc j) = insert s (visited es j)"
  by (auto simp: visited_def less_Suc_eq)

lemma visited_Suc_None:
  "j < length es \<Longrightarrow> es ! j = None \<Longrightarrow> visited es (Suc j) = visited es j"
  by (auto simp: visited_def less_Suc_eq)

lemma visited_Suc_seen:
  "j < length es \<Longrightarrow> es ! j = Some s \<Longrightarrow> s \<in> visited es j \<Longrightarrow> visited es (Suc j) = visited es j"
  by (auto simp: visited_def less_Suc_eq)

lemma visited_all: "length es \<le> j \<Longrightarrow> visited es j = {t. set_has es t}"
  by (auto simp: visited_def set_has_def in_set_conv_nth) (metis less_le_trans)

lemma cleanup_step_spec:
  assumes "\<not> executing m"
  shows "executing (cleanup_step s m) = False"
    "errorHandler (cleanup_step s m) = errorHandler m"
    "objects (cleanup_step s m) = (objects m)(s := reset (objects m s))"
    "sequences (cleanup_step s m) =
       (if once (objects m s) then set_delete s (sequences m) else sequences m)"
    "deferredRegistrations (cleanup_step s m) =
       (if once (objects m s) then set_delete s (deferredRegistrations m)
        else deferredRegistrations m)"
    "events (cleanup_step s m) =
       events m @ (if once (objects m s) then [Destroyed s, Unregistered s] else [])"
  using assms
  by (auto simp: cleanup_step_def afterRun_def destroy_def unregister_def Let_def reset_def
        set_delete_def split: option.splits)

lemma cleanup_rule:
  assumes "I i m"
    and step: "\<And>j m s. I j m \<Longrightarrow> j < length (sequences m) \<Longrightarrow> sequences m ! j = Some s \<Longrightarrow>
                 I (Suc j) (cleanup_step s m)"
    and skip: "\<And>j m. I j m \<Longrightarrow> j < length (sequences m) \<Longrightarrow> sequences m ! j = None \<Longrightarrow>
                 I (Suc j) m"
  shows "I (max i (length (sequences m))) (cleanup i m)"
  using assms(1)
proof (induction i m rule: cleanup.induct)
  case (1 i m)
  show ?case
  proof (cases "i < length (sequences m)")
    case False
    with 1(3) show ?thesis by (simp add: cleanup.simps[of i] max_def)
  next
    case True
    then have mx: "max (Suc i) (length (sequences m)) = max i (length (sequences m))" by simp
    show ?thesis
    proof (cases "sequences m ! i")
      case None
      have "I (Suc i) m" using skip 1(3) True None by blast
      from 1(1)[OF True None this] True None mx show ?thesis
        by (simp add: cleanup.simps[of i])
    next
      case (Some s)
      have "I (Suc i) (cleanup_step s m)" using step 1(3) True Some by blast
      from 1(2)[OF True Some this] True Some mx show ?thesis
        by (simp add: cleanup.simps[of i])
    qed
  qed
qed

text \<open>
  The state after the cleanup loop: every sequence of the active set has been reset, and
  the one-shot ones among them are gone from both sets and have been destroyed.
\<close>

definition cleaned ::
  "('v, 'e) manager \<Rightarrow> nat \<Rightarrow> ('v, 'e) manager \<Rightarrow> bool" where
  "cleaned m0 j m =
     (let V = visited (sequences m0) j; K = {t \<in> V. once (objects m0 t)} in
      \<not> executing m \<and> errorHandler m = errorHandler m0 \<and>
      sequences m = without K (sequences m0) \<and>
      deferredRegistrations m = without K (deferredRegistrations m0) \<and>
      objects m = (\<lambda>t. if t \<in> V then reset (objects m0 t) else objects m0 t) \<and>
      (\<exists>xs. events m = events m0 @ xs \<and>
            set xs = Destroyed ` K \<union> Unregistered ` K))"

lemma cleaned_step:
  assumes "cleaned m0 j m" "j < length (sequences m)" "sequences m ! j = Some s"
  shows "cleaned m0 (Suc j) (cleanup_step s m)"
proof -
  define V where "V = visited (sequences m0) j"
  define K where "K = {t \<in> V. once (objects m0 t)}"
  note c = assms(1)[unfolded cleaned_def Let_def, folded V_def, folded K_def]
  have nex: "\<not> executing m" using c by simp
  have j: "j < length (sequences m0)" using assms(2) c by simp
  have "without K (sequences m0) ! j = Some s" using assms(3) c by simp
  then have e0: "sequences m0 ! j = Some s" and sK: "s \<notin> K"
    using j by (auto simp: without_def split: if_splits)
  have V': "visited (sequences m0) (Suc j) = insert s V"
    unfolding V_def using j e0 by (rule visited_Suc_Some)
  have once_s: "once (objects m s) = once (objects m0 s)"
    using c by simp
  have K': "{t \<in> insert s V. once (objects m0 t)} = (if once (objects m0 s) then insert s K else K)"
    using sK by (auto simp: K_def)
  obtain xs where xs: "events m = events m0 @ xs" "set xs = Destroyed ` K \<union> Unregistered ` K"
    using c by blast
  show ?thesis
    unfolding cleaned_def Let_def V' K'
    using c xs once_s
    by (auto simp: cleanup_step_spec[OF nex] set_delete_without fun_eq_iff)
qed

lemma cleaned_skip:
  assumes "cleaned m0 j m" "j < length (sequences m)" "sequences m ! j = None"
  shows "cleaned m0 (Suc j) m"
proof -
  define V where "V = visited (sequences m0) j"
  define K where "K = {t \<in> V. once (objects m0 t)}"
  note c = assms(1)[unfolded cleaned_def Let_def, folded V_def, folded K_def]
  have j: "j < length (sequences m0)" using assms(2) c by simp
  have "without K (sequences m0) ! j = None" using assms(3) c by simp
  then have "sequences m0 ! j = None \<or> (\<exists>t \<in> K. sequences m0 ! j = Some t)"
    using j by (auto simp: without_def split: if_splits)
  then have "visited (sequences m0) (Suc j) = V"
    unfolding V_def using j by (auto simp: K_def V_def visited_Suc_None visited_Suc_seen)
  then show ?thesis
    using assms(1) unfolding cleaned_def Let_def V_def by simp
qed

lemma cleanup_spec:
  assumes "\<not> executing m0"
  shows "cleaned m0 (length (sequences m0)) (cleanup 0 m0)"
proof -
  have "cleaned m0 0 m0" using assms by (simp add: cleaned_def)
  then have "cleaned m0 (max 0 (length (sequences m0))) (cleanup 0 m0)"
    by (rule cleanup_rule[where I = "cleaned m0"]) (auto intro: cleaned_step cleaned_skip)
  then show ?thesis by simp
qed


lemma flush_fields [simp]:
  "errorHandler (flush i m) = errorHandler m"
  "deferredRegistrations (flush i m) = deferredRegistrations m"
  "executing (flush i m) = executing m"
  "objects (flush i m) = objects m"
  "views (flush i m) = views m"
  "events (flush i m) = events m"
proof (induction i m rule: flush.induct)
  case (1 i m)
  {
    case 1
    show ?case using "1.IH" by (simp add: flush.simps[of i m] split: option.splits)
  next
    case 2
    show ?case using "1.IH" by (simp add: flush.simps[of i m] split: option.splits)
  next
    case 3
    show ?case using "1.IH" by (simp add: flush.simps[of i m] split: option.splits)
  next
    case 4
    show ?case using "1.IH" by (simp add: flush.simps[of i m] split: option.splits)
  next
    case 5
    show ?case using "1.IH" by (simp add: flush.simps[of i m] split: option.splits)
  next
    case 6
    show ?case using "1.IH" by (simp add: flush.simps[of i m] split: option.splits)
  }
qed

lemma flush_has:
  "set_has (sequences (flush i m)) t \<longleftrightarrow>
     set_has (sequences m) t \<or>
     (\<exists>k\<ge>i. k < length (deferredRegistrations m) \<and> deferredRegistrations m ! k = Some t)"
proof (induction i m rule: flush.induct)
  case (1 i m)
  show ?case
  proof (cases "i < length (deferredRegistrations m)")
    case False
    then show ?thesis by (auto simp: flush.simps[of i m])
  next
    case True
    have split: "(\<exists>k\<ge>i. k < length (deferredRegistrations m) \<and> deferredRegistrations m ! k = Some t)
      \<longleftrightarrow> deferredRegistrations m ! i = Some t \<or>
          (\<exists>k\<ge>Suc i. k < length (deferredRegistrations m) \<and> deferredRegistrations m ! k = Some t)"
      using True by (metis Suc_leI le_eq_less_or_eq Suc_leD order_refl)
    show ?thesis
    proof (cases "deferredRegistrations m ! i")
      case None
      with True 1(1) split show ?thesis by (simp add: flush.simps[of i m])
    next
      case (Some s)
      with True 1(2)[OF True Some] split show ?thesis
        by (auto simp: flush.simps[of i m])
    qed
  qed
qed

lemma flush_has_0:
  "set_has (sequences (flush 0 m)) t \<longleftrightarrow>
     set_has (sequences m) t \<or> set_has (deferredRegistrations m) t"
proof -
  have "set_has (deferredRegistrations m) t \<longleftrightarrow>
      (\<exists>k\<ge>0. k < length (deferredRegistrations m) \<and> deferredRegistrations m ! k = Some t)"
    by (auto simp: set_has_def in_set_conv_nth)
  then show ?thesis using flush_has[of 0 m t] by simp
qed

lemma set_values_set: "set (set_values es) = {x. set_has es x}"
  by (induction es) (auto simp: set_values_def set_has_def split: option.splits)

lemma set_size_pos: "0 < set_size es \<longleftrightarrow> (\<exists>x. set_has es x)"
proof -
  have "0 < set_size es \<longleftrightarrow> set (set_values es) \<noteq> {}"
    by (simp add: set_size_def)
  then show ?thesis by (auto simp: set_values_set)
qed

lemma set_has_clear [simp]: "set_has (set_clear es) x = False"
  by (auto simp: set_has_def set_clear_def)

text \<open>The part of \<open>execute\<close> that follows the phases, in one statement.\<close>

lemma after_phases_spec:
  fixes m :: "('v, 'e) manager"
  defines "K \<equiv> {t. set_has (sequences m) t \<and> once (objects m t)}"
  shows "executing (after_phases m) = False"
    and "errorHandler (after_phases m) = errorHandler m"
    and "objects (after_phases m) =
           (\<lambda>t. if set_has (sequences m) t then reset (objects m t) else objects m t)"
    and "sequences (cleanup 0 (m\<lparr>executing := False\<rparr>)) = without K (sequences m)"
    and "set_has (sequences (after_phases m)) t \<longleftrightarrow>
           (set_has (sequences m) t \<or> set_has (deferredRegistrations m) t) \<and> t \<notin> K"
    and "set_has (deferredRegistrations (after_phases m)) t = False"
    and "\<exists>xs. events (after_phases m) =
             events m @ xs @
               (if \<exists>t. set_has (deferredRegistrations m) t \<and> t \<notin> K
                then [Notified DeferredRenderHook] else []) \<and>
             set xs = Destroyed ` K \<union> Unregistered ` K"
proof -
  define m1 where "m1 = m\<lparr>executing := False\<rparr>"
  define c where "c = cleanup 0 m1"
  have m1: "sequences m1 = sequences m" "deferredRegistrations m1 = deferredRegistrations m"
    "objects m1 = objects m" "errorHandler m1 = errorHandler m" "events m1 = events m"
    by (simp_all add: m1_def)
  have "cleaned m1 (length (sequences m1)) c"
    unfolding c_def by (rule cleanup_spec) (simp add: m1_def)
  then have c: "\<not> executing c" "errorHandler c = errorHandler m"
    "sequences c = without K (sequences m)"
    "deferredRegistrations c = without K (deferredRegistrations m)"
    "objects c = (\<lambda>t. if set_has (sequences m) t then reset (objects m t) else objects m t)"
    and ev: "\<exists>xs. events c = events m @ xs \<and> set xs = Destroyed ` K \<union> Unregistered ` K"
    unfolding cleaned_def Let_def m1 by (simp_all add: visited_all K_def)
  have ap: "after_phases m =
      (let m3 = flush 0 c;
           m4 = (if set_size (deferredRegistrations m3) > 0
                 then emit (Notified DeferredRenderHook) m3 else m3)
       in m4\<lparr>deferredRegistrations := set_clear (deferredRegistrations m4)\<rparr>)"
    by (simp add: after_phases_def c_def m1_def Let_def)
  show "executing (after_phases m) = False" using c by (simp add: ap Let_def)
  show "errorHandler (after_phases m) = errorHandler m" using c by (simp add: ap Let_def)
  show "objects (after_phases m) =
           (\<lambda>t. if set_has (sequences m) t then reset (objects m t) else objects m t)"
    using c by (simp add: ap Let_def)
  show "sequences (cleanup 0 (m\<lparr>executing := False\<rparr>)) = without K (sequences m)"
    using c by (simp add: c_def m1_def)
  show "set_has (sequences (after_phases m)) t \<longleftrightarrow>
           (set_has (sequences m) t \<or> set_has (deferredRegistrations m) t) \<and> t \<notin> K"
    using c by (auto simp: ap Let_def flush_has_0)
  show "set_has (deferredRegistrations (after_phases m)) t = False"
    by (simp add: ap Let_def)
  show "\<exists>xs. events (after_phases m) =
             events m @ xs @
               (if \<exists>t. set_has (deferredRegistrations m) t \<and> t \<notin> K
                then [Notified DeferredRenderHook] else []) \<and>
             set xs = Destroyed ` K \<union> Unregistered ` K"
    using ev c by (auto simp: ap Let_def set_size_pos)
qed


text \<open>The loops keep the invariant of the active set.\<close>

lemma set_values_append [simp]: "set_values (xs @ ys) = set_values xs @ set_values ys"
  by (simp add: set_values_def)






subsection \<open>How an execution ends\<close>

text \<open>The errors handed to the handler, and the errors thrown by hooks, in order.\<close>

fun handled_errors :: "('v, 'e) event list \<Rightarrow> 'e list" where
  "handled_errors [] = []"
| "handled_errors (Handled err # es) = err # handled_errors es"
| "handled_errors (e # es) = handled_errors es"

fun thrown_errors :: "('v, 'e) event list \<Rightarrow> 'e list" where
  "thrown_errors [] = []"
| "thrown_errors (Invoked s p a (Inl err) # es) = err # thrown_errors es"
| "thrown_errors (e # es) = thrown_errors es"

lemma handled_errors_append [simp]:
  "handled_errors (xs @ ys) = handled_errors xs @ handled_errors ys"
  by (induction xs rule: handled_errors.induct) simp_all

lemma thrown_errors_append [simp]:
  "thrown_errors (xs @ ys) = thrown_errors xs @ thrown_errors ys"
  by (induction xs rule: thrown_errors.induct) simp_all

lemma handled_errors_calls [simp]: "handled_errors (concat (map call_events cs)) = []"
proof (induction cs)
  case (Cons c cs)
  then show ?case by (cases c) simp_all
qed simp

lemma thrown_errors_calls [simp]: "thrown_errors (concat (map call_events cs)) = []"
proof (induction cs)
  case (Cons c cs)
  then show ?case by (cases c) simp_all
qed simp

lemma handled_errors_handled [simp]:
  "handled_errors (handled h out) =
     (case out of Inl err \<Rightarrow> (case h of None \<Rightarrow> [] | Some handleError \<Rightarrow> [err]) | Inr v \<Rightarrow> [])"
  by (cases out; cases h) (simp_all add: handled_def)

lemma thrown_errors_handled [simp]: "thrown_errors (handled h out) = []"
  by (cases out; cases h) (simp_all add: handled_def)

lemma thrown_errors_Invoked [simp]:
  "thrown_errors (Invoked s p a out # es) =
     (case out of Inl err \<Rightarrow> [err] | Inr v \<Rightarrow> []) @ thrown_errors es"
  by (cases out) simp_all

lemma handled_errors_none:
  "(\<forall>e \<in> set xs. \<forall>err. e \<noteq> Handled err) \<Longrightarrow> handled_errors xs = []"
  by (induction xs rule: handled_errors.induct) simp_all

lemma thrown_errors_none:
  "(\<forall>e \<in> set xs. \<forall>s p a out. e \<noteq> Invoked s p a out) \<Longrightarrow> thrown_errors xs = []"
  by (induction xs rule: thrown_errors.induct) simp_all

text \<open>What the handler, if there is one, throws when it is given the last of the errors.\<close>

definition answer :: "('v, 'e) manager \<Rightarrow> 'e list \<Rightarrow> 'e option" where
  "answer m errs =
     (case errorHandler m of
        None \<Rightarrow> None
      | Some handleError \<Rightarrow> if errs = [] then None else handleError (last errs))"

lemma answer_quiet: "list_all (handler_quiet m) errs \<Longrightarrow> answer m errs = None"
  by (cases errs rule: rev_cases)
     (auto simp: answer_def handler_quiet_def split: option.splits)

lemma answer_append: "errs' \<noteq> [] \<Longrightarrow> answer m (errs @ errs') = answer m errs'"
  by (simp add: answer_def split: option.splits)

lemma thrown_returned: "thrown r = None \<longleftrightarrow> returned r"
  by (cases r) simp_all

text \<open>
  A piece that started in \<open>m0\<close> ends by the handler: it returns if and only if the handler
  returned for each error it was given since \<open>m0\<close>, and what it throws is what the handler
  threw when it was given the last of them.
\<close>

definition ends_by_handler :: "('v, 'e) manager \<Rightarrow> ('v, 'e) completion \<Rightarrow> bool" where
  "ends_by_handler m0 r =
     (errorHandler (state_of r) = errorHandler m0 \<and>
      (\<exists>new. events (state_of r) = events m0 @ new \<and>
             returned r = list_all (handler_quiet m0) (handled_errors new) \<and>
             thrown r = answer m0 (handled_errors new)))"

lemma ends_by_handler_refl: "ends_by_handler m (Returned m)"
  by (simp add: ends_by_handler_def answer_def split: option.splits)

lemma ends_by_handler_trans:
  assumes "ends_by_handler m0 (Returned m1)" "ends_by_handler m1 r"
  shows "ends_by_handler m0 r"
proof -
  from assms(1) obtain new1 where n1: "errorHandler m1 = errorHandler m0"
    "events m1 = events m0 @ new1" "list_all (handler_quiet m0) (handled_errors new1)"
    by (auto simp: ends_by_handler_def)
  from assms(2) obtain new2 where n2: "errorHandler (state_of r) = errorHandler m1"
    "events (state_of r) = events m1 @ new2"
    "returned r = list_all (handler_quiet m1) (handled_errors new2)"
    "thrown r = answer m1 (handled_errors new2)"
    by (auto simp: ends_by_handler_def)
  have q: "handler_quiet m1 = handler_quiet m0" "answer m1 = answer m0"
    using n1(1) by (simp_all add: handler_quiet_def answer_def fun_eq_iff)
  have "events (state_of r) = events m0 @ (new1 @ new2)" using n1(2) n2(2) by simp
  moreover have "returned r = list_all (handler_quiet m0) (handled_errors (new1 @ new2))"
    using n1(3) n2(3) q by simp
  moreover have "thrown r = answer m0 (handled_errors (new1 @ new2))"
  proof (cases "handled_errors new2 = []")
    case True
    then have "returned r" using n2(3) by simp
    then have "thrown r = None" by (simp add: thrown_returned)
    moreover have "answer m0 (handled_errors (new1 @ new2)) = None"
      using True n1(3) by (simp add: answer_quiet)
    ultimately show ?thesis by simp
  next
    case False
    then show ?thesis using n2(4) q by (simp add: answer_append)
  qed
  ultimately show ?thesis
    unfolding ends_by_handler_def using n1(1) n2(1) by metis
qed

lemma ends_by_handler_same:
  "errorHandler m = errorHandler m0 \<Longrightarrow> events m = events m0 \<Longrightarrow>
   ends_by_handler m r \<Longrightarrow> ends_by_handler m0 r"
proof -
  assume a: "errorHandler m = errorHandler m0" "events m = events m0" "ends_by_handler m r"
  have "handler_quiet m = handler_quiet m0" "answer m = answer m0"
    using a(1) by (simp_all add: handler_quiet_def answer_def fun_eq_iff)
  with a show ?thesis by (simp add: ends_by_handler_def)
qed


lemma ends_by_handler_invoke:
  assumes "executing m"
  shows "ends_by_handler m (invoke p s m)"
proof (cases "runs p s m")
  case False
  then show ?thesis by (simp add: invoke_skip ends_by_handler_refl)
next
  case True
  with assms show ?thesis
    by (cases "outcome (the_run p s m)"; cases "errorHandler m")
       (simp_all add: ends_by_handler_def invoke_events invoke_returned invoke_thrown
         contained_def handler_quiet_def answer_def)
qed

lemma ends_by_handler_run_phase:
  assumes "executing m"
  shows "\<exists>r. run_phase p i m = Some r \<and> executing (state_of r) \<and>
             sequences (state_of r) = sequences m \<and> ends_by_handler m r"
proof -
  have "\<exists>r. run_phase p i m = Some r \<and> executing (state_of r) \<and>
          sequences (state_of r) = sequences m \<and>
          (case r of
             Returned m' \<Rightarrow> (\<lambda>j x. ends_by_handler m (Returned x)) (max i (length (sequences m))) m'
           | Thrown err m' \<Rightarrow> (\<lambda>err x. ends_by_handler m (Thrown err x)) err m')"
  proof (rule run_phase_rule[where I = "\<lambda>j x. ends_by_handler m (Returned x)"
        and Q = "\<lambda>err x. ends_by_handler m (Thrown err x)"])
    fix j x s
    assume "ends_by_handler m (Returned x)" "executing x"
    then have "ends_by_handler m (invoke p s x)"
      using ends_by_handler_trans ends_by_handler_invoke by blast
    then show "case invoke p s x of Returned m' \<Rightarrow> ends_by_handler m (Returned m')
               | Thrown err m' \<Rightarrow> ends_by_handler m (Thrown err m')"
      by (cases "invoke p s x") simp_all
  qed (use assms in \<open>simp_all add: ends_by_handler_refl\<close>)
  then obtain r where r: "run_phase p i m = Some r" "executing (state_of r)"
    "sequences (state_of r) = sequences m"
    "case r of Returned m' \<Rightarrow> ends_by_handler m (Returned m')
     | Thrown err m' \<Rightarrow> ends_by_handler m (Thrown err m')" by blast
  from r(4) have "ends_by_handler m r" by (cases r) simp_all
  with r show ?thesis by blast
qed

lemma ends_by_handler_run_phases:
  assumes "executing m"
  shows "\<exists>r. run_phases ps m = Some r \<and> ends_by_handler m r"
  using assms
proof (induction ps arbitrary: m)
  case Nil
  then show ?case by (simp add: ends_by_handler_refl)
next
  case (Cons p ps)
  obtain r1 where r1: "run_phase p 0 m = Some r1" "executing (state_of r1)"
    "ends_by_handler m r1"
    using ends_by_handler_run_phase[OF Cons.prems] by blast
  show ?case
  proof (cases r1)
    case (Returned m1)
    with r1 Cons.IH[of m1] obtain r where "run_phases ps m1 = Some r" "ends_by_handler m1 r"
      by auto
    with r1 Returned show ?thesis
      using ends_by_handler_trans[of m m1 r] by simp
  next
    case (Thrown err m1)
    with r1 show ?thesis by simp
  qed
qed

lemma after_phases_handled_errors:
  "\<exists>new. events (after_phases m) = events m @ new \<and> handled_errors new = [] \<and>
         thrown_errors new = []"
proof -
  define K where "K = {t. set_has (sequences m) t \<and> once (objects m t)}"
  obtain xs where xs: "events (after_phases m) =
      events m @ xs @ (if \<exists>t. set_has (deferredRegistrations m) t \<and> t \<notin> K
                        then [Notified DeferredRenderHook] else [])"
    "set xs = Destroyed ` K \<union> Unregistered ` K"
    using after_phases_spec(7)[of m] unfolding K_def by blast
  have "handled_errors xs = []" by (rule handled_errors_none) (use xs(2) in auto)
  moreover have "thrown_errors xs = []" by (rule thrown_errors_none) (use xs(2) in auto)
  ultimately show ?thesis
    using xs(1)
    by (intro exI[of _ "xs @ (if \<exists>t. set_has (deferredRegistrations m) t \<and> t \<notin> K
                        then [Notified DeferredRenderHook] else [])"]) simp
qed

lemma ends_by_handler_finish:
  assumes "ends_by_handler m0 r"
  shows "ends_by_handler m0 (finish r)"
proof (cases r)
  case (Thrown err m1)
  with assms show ?thesis by simp
next
  case (Returned m1)
  obtain new2 where "events (after_phases m1) = events m1 @ new2" "handled_errors new2 = []"
    using after_phases_handled_errors[of m1] by blast
  then have "ends_by_handler m1 (Returned (after_phases m1))"
    by (simp add: ends_by_handler_def after_phases_spec(2) answer_def split: option.splits)
  with assms Returned show ?thesis
    using ends_by_handler_trans[of m0 m1 "Returned (after_phases m1)"] by simp
qed

lemma ends_by_handler_execute: "\<exists>r. execute m = Some r \<and> ends_by_handler m r"
proof -
  define m0 where "m0 = m\<lparr>executing := True\<rparr>"
  obtain r1 where r1: "run_phases AFTER_RENDER_PHASES m0 = Some r1" "ends_by_handler m0 r1"
    using ends_by_handler_run_phases[of m0] by (auto simp: m0_def)
  have "ends_by_handler m (finish r1)"
    using ends_by_handler_finish[OF r1(2)]
    by (rule ends_by_handler_same[rotated 2]) (simp_all add: m0_def)
  with r1(1) show ?thesis by (simp add: execute_def m0_def)
qed



subsection \<open>Invariants of a whole execution\<close>

lemma execute_inv:
  assumes "I (m\<lparr>executing := True\<rparr>)"
    and step: "\<And>p m s. I m \<Longrightarrow> executing m \<Longrightarrow> set_has (sequences m) s \<Longrightarrow>
                 I (state_of (invoke p s m))"
  shows "\<exists>r1. execute m = Some (finish r1) \<and> I (state_of r1) \<and> executing (state_of r1) \<and>
              sequences (state_of r1) = sequences m"
proof -
  obtain r1 where "run_phases AFTER_RENDER_PHASES (m\<lparr>executing := True\<rparr>) = Some r1"
    "I (state_of r1)" "executing (state_of r1)"
    "sequences (state_of r1) = sequences (m\<lparr>executing := True\<rparr>)"
    using run_phases_inv[of I "m\<lparr>executing := True\<rparr>" AFTER_RENDER_PHASES] assms by auto
  then show ?thesis by (auto simp: execute_def)
qed




lemma execute_from_erased:
  assumes "execute (m\<lparr>events := []\<rparr>) = Some r0"
  shows "execute m = Some (map_state (prepend (events m)) r0)"
  using prepend_execute[of "events m" "m\<lparr>events := []\<rparr>"] assms by (simp add: prepend_erase)

subsection \<open>Events of one sequence\<close>

text \<open>No hook of the sequence \<open>s\<close> is invoked in the events \<open>xs\<close>.\<close>

definition no_hook_of :: "sequence_ref \<Rightarrow> ('v, 'e) event list \<Rightarrow> bool" where
  "no_hook_of s xs = (\<forall>p a out. Invoked s p a out \<notin> set xs)"

lemma no_hook_of_simps [simp]:
  "no_hook_of s []"
  "no_hook_of s (xs @ ys) \<longleftrightarrow> no_hook_of s xs \<and> no_hook_of s ys"
  "no_hook_of s (e # xs) \<longleftrightarrow> (\<forall>p a out. e \<noteq> Invoked s p a out) \<and> no_hook_of s xs"
  by (auto simp: no_hook_of_def)

lemma no_hook_of_calls [simp]: "no_hook_of s (concat (map call_events cs))"
proof (induction cs)
  case (Cons c cs)
  then show ?case by (cases c) simp_all
qed simp

lemma no_hook_of_handled [simp]: "no_hook_of s (handled h out)"
  by (cases out; cases h) (simp_all add: handled_def)





subsection \<open>Unregistering\<close>






subsection \<open>Registering\<close>



lemma settle_keeps_events: "e \<in> set (events m) \<Longrightarrow> e \<in> set (events (state_of (settle s out m)))"
  by (simp add: settle_events)


text \<open>No event of \<open>xs\<close> is a notification of the scheduler.\<close>

definition no_notification :: "('v, 'e) event list \<Rightarrow> bool" where
  "no_notification xs = (\<forall>source. Notified source \<notin> set xs)"

lemma no_notification_simps [simp]:
  "no_notification []"
  "no_notification (xs @ ys) \<longleftrightarrow> no_notification xs \<and> no_notification ys"
  "no_notification (e # xs) \<longleftrightarrow> (\<forall>source. e \<noteq> Notified source) \<and> no_notification xs"
  by (auto simp: no_notification_def)

lemma no_notification_calls [simp]: "no_notification (concat (map call_events cs))"
proof (induction cs)
  case (Cons c cs)
  then show ?case by (cases c) simp_all
qed simp

lemma no_notification_handled [simp]: "no_notification (handled h out)"
  by (cases out; cases h) (simp_all add: handled_def)






subsection \<open>The order of the hooks\<close>

text \<open>The hooks invoked in a list of events: sequence and phase, in order.\<close>

fun invocations :: "('v, 'e) event list \<Rightarrow> (sequence_ref \<times> AfterRenderPhase) list" where
  "invocations [] = []"
| "invocations (Invoked s p a out # es) = (s, p) # invocations es"
| "invocations (e # es) = invocations es"

lemma invocations_append [simp]: "invocations (xs @ ys) = invocations xs @ invocations ys"
  by (induction xs rule: invocations.induct) simp_all

lemma invocations_none:
  "(\<forall>e \<in> set xs. \<forall>s p a out. e \<noteq> Invoked s p a out) \<Longrightarrow> invocations xs = []"
  by (induction xs rule: invocations.induct) simp_all

lemma invocations_calls [simp]: "invocations (concat (map call_events cs)) = []"
proof (induction cs)
  case (Cons c cs)
  then show ?case by (cases c) simp_all
qed simp

lemma invocations_handled [simp]: "invocations (handled h out) = []"
  by (cases out; cases h) (simp_all add: handled_def)

lemma invocations_bookkeeping:
  "set xs = Destroyed ` K \<union> Unregistered ` K \<Longrightarrow> invocations xs = []"
  by (rule invocations_none) auto

lemma invoke_invocations:
  "executing m \<Longrightarrow>
   invocations (events (state_of (invoke p s m))) =
     invocations (events m) @ (if runs p s m then [(s, p)] else [])"
  by (cases "runs p s m") (simp_all add: invoke_events invoke_skip)

lemma after_phases_invocations:
  "invocations (events (after_phases m)) = invocations (events m)"
proof -
  obtain xs where "events (after_phases m) =
      events m @ xs @ (if \<exists>t. set_has (deferredRegistrations m) t \<and>
                              t \<notin> {t. set_has (sequences m) t \<and> once (objects m t)}
                        then [Notified DeferredRenderHook] else [])"
    "set xs = Destroyed ` {t. set_has (sequences m) t \<and> once (objects m t)}
              \<union> Unregistered ` {t. set_has (sequences m) t \<and> once (objects m t)}"
    using after_phases_spec(7)[of m] by blast
  then show ?thesis by (simp add: invocations_bookkeeping)
qed

lemma set_wf_nth_inj:
  assumes "set_wf es" "i < length es" "j < length es" "es ! i = Some x" "es ! j = Some x"
  shows "i = j"
  using assms
proof (induction es arbitrary: i j)
  case Nil
  then show ?case by simp
next
  case (Cons e es)
  have wf: "set_wf es" using Cons.prems(1) by (simp add: set_wf_def set_values_def)
  have notin: "e = Some x \<Longrightarrow> \<not> set_has es x"
    using Cons.prems(1) set_values_set[of es] by (auto simp: set_wf_def set_values_def)
  show ?case
  proof (cases i)
    case 0
    show ?thesis
    proof (cases j)
      case (Suc j')
      with 0 Cons.prems notin nth_mem[of j' es] show ?thesis by (auto simp: set_has_def)
    qed (simp add: 0)
  next
    case (Suc i')
    show ?thesis
    proof (cases j)
      case 0
      with Suc Cons.prems notin nth_mem[of i' es] show ?thesis by (auto simp: set_has_def)
    next
      case (Suc j')
      with \<open>i = Suc i'\<close> Cons.prems Cons.IH[OF wf, of i' j'] show ?thesis by simp
    qed
  qed
qed

text \<open>
  The invariant of the phase loops, in phase \<open>p\<close> before entry \<open>i\<close>: the invocations
  so far are in the order of the phases and without repetition, and each of them belongs to
  a sequence of the active set, and to an earlier phase or to an entry of this phase that the
  loop has passed.
\<close>

definition ordered ::
  "sequence_ref js_set \<Rightarrow> AfterRenderPhase \<Rightarrow> nat \<Rightarrow> ('v, 'e) manager \<Rightarrow> bool" where
  "ordered E p i m =
     (sorted (map (phase_index \<circ> snd) (invocations (events m))) \<and>
      distinct (invocations (events m)) \<and>
      (\<forall>(s, q) \<in> set (invocations (events m)).
          set_has E s \<and> (phase_index q < phase_index p \<or> (q = p \<and> s \<in> visited E i))))"

lemma ordered_step:
  assumes "set_wf E" "ordered E p j m" "executing m" "j < length E" "E ! j = Some s"
  shows "ordered E p (Suc j) (state_of (invoke p s m))"
proof -
  have v: "visited E (Suc j) = insert s (visited E j)"
    using assms(4,5) by (rule visited_Suc_Some)
  have fresh: "(s, p) \<notin> set (invocations (events m))"
  proof
    assume "(s, p) \<in> set (invocations (events m))"
    then have "s \<in> visited E j" using assms(2) by (auto simp: ordered_def)
    then obtain k where "k < j" "k < length E" "E ! k = Some s" by (auto simp: visited_def)
    with set_wf_nth_inj[OF assms(1) _ assms(4) _ assms(5), of k] show False by simp
  qed
  have le: "\<forall>x \<in> set (invocations (events m)). phase_index (snd x) \<le> phase_index p"
    using assms(2) by (auto simp: ordered_def)
  have has: "set_has E s"
    using assms(4,5) by (metis nth_mem set_has_def)
  show ?thesis
    using assms(2) fresh le has
    by (auto simp: ordered_def invoke_invocations[OF assms(3)] v sorted_append)
qed

lemma ordered_skip:
  assumes "ordered E p j m" "j < length E" "E ! j = None"
  shows "ordered E p (Suc j) m"
  using assms by (simp add: ordered_def visited_Suc_None)

lemma ordered_next:
  assumes "ordered E p j m" "phase_index p < phase_index q"
  shows "ordered E q 0 m"
  using assms by (fastforce simp: ordered_def)

subsection \<open>The four phases in a row\<close>

text \<open>
  The rule for an invariant that depends on the phase and the position. If no turn throws,
  it holds after the last entry of the last phase; otherwise it holds where the execution
  stopped.
\<close>

lemma execute_rule:
  fixes m :: "('v, 'e) manager"
  defines "E \<equiv> sequences m"
  assumes start: "I EarlyRead 0 (m\<lparr>executing := True\<rparr>)"
    and step: "\<And>p j x s. I p j x \<Longrightarrow> executing x \<Longrightarrow> sequences x = E \<Longrightarrow> j < length E \<Longrightarrow>
                 E ! j = Some s \<Longrightarrow> I p (Suc j) (state_of (invoke p s x))"
    and skip: "\<And>p j x. I p j x \<Longrightarrow> executing x \<Longrightarrow> sequences x = E \<Longrightarrow> j < length E \<Longrightarrow>
                 E ! j = None \<Longrightarrow> I p (Suc j) x"
    and nxt: "\<And>p q x. I p (length E) x \<Longrightarrow> phase_index q = Suc (phase_index p) \<Longrightarrow> I q 0 x"
  shows "\<exists>r1. execute m = Some (finish r1) \<and> executing (state_of r1) \<and>
              sequences (state_of r1) = E \<and>
              (if returned r1 then I Read (length E) (state_of r1)
               else \<exists>p j. I p j (state_of r1))"
proof -
  have phase: "\<exists>r. run_phase p 0 x = Some r \<and> executing (state_of r) \<and>
      sequences (state_of r) = E \<and>
      (if returned r then I p (length E) (state_of r) else \<exists>q j. I q j (state_of r))"
    if "I p 0 x" "executing x" "sequences x = E" for p x
  proof -
    have "\<exists>r. run_phase p 0 x = Some r \<and> executing (state_of r) \<and>
        sequences (state_of r) = E \<and>
        (case r of Returned m' \<Rightarrow> I p (max 0 (length E)) m'
         | Thrown err m' \<Rightarrow> (\<lambda>err y. \<exists>q j. I q j y) err m')"
      using that
    proof (rule run_phase_rule[where I = "I p" and Q = "\<lambda>err y. \<exists>q j. I q j y"])
      fix j x'' s
      assume "I p j x''" "executing x''" "sequences x'' = E" "j < length E" "E ! j = Some s"
      then have "I p (Suc j) (state_of (invoke p s x''))" by (rule step)
      then show "case invoke p s x'' of Returned m' \<Rightarrow> I p (Suc j) m'
                 | Thrown err m' \<Rightarrow> \<exists>q j. I q j m'"
        by (cases "invoke p s x''") auto
    next
      fix j x''
      assume "I p j x''" "executing x''" "sequences x'' = E" "j < length E" "E ! j = None"
      then show "I p (Suc j) x''" by (rule skip)
    qed
    then obtain r where r: "run_phase p 0 x = Some r" "executing (state_of r)"
      "sequences (state_of r) = E"
      and c: "case r of Returned m' \<Rightarrow> I p (max 0 (length E)) m'
              | Thrown err m' \<Rightarrow> \<exists>q j. I q j m'"
      by blast
    from c have "if returned r then I p (length E) (state_of r) else \<exists>q j. I q j (state_of r)"
      by (cases r) simp_all
    with r show ?thesis by blast
  qed
  define m0 where "m0 = m\<lparr>executing := True\<rparr>"
  have "I EarlyRead 0 m0" "executing m0" "sequences m0 = E"
    using start by (simp_all add: m0_def E_def)
  from phase[OF this]
  obtain r1 where r1: "run_phase EarlyRead 0 m0 = Some r1" "executing (state_of r1)"
    "sequences (state_of r1) = E"
    "if returned r1 then I EarlyRead (length E) (state_of r1) else \<exists>q j. I q j (state_of r1)"
    by blast
  show ?thesis
  proof (cases r1)
    case (Thrown err x1)
    with r1 have "execute m = Some (finish r1)"
      by (simp add: execute_def AFTER_RENDER_PHASES_def m0_def[symmetric])
    with r1 Thrown show ?thesis by (intro exI[of _ r1]) simp
  next
    case R1: (Returned m1)
    with r1 have m1: "I EarlyRead (length E) m1" "executing m1" "sequences m1 = E" by simp_all
    have "I Write 0 m1" using m1(1) by (rule nxt) simp
    from phase[OF this m1(2,3)]
    obtain r2 where r2: "run_phase Write 0 m1 = Some r2" "executing (state_of r2)"
      "sequences (state_of r2) = E"
      "if returned r2 then I Write (length E) (state_of r2) else \<exists>q j. I q j (state_of r2)"
      by blast
    show ?thesis
    proof (cases r2)
      case (Thrown err x2)
      with r1 R1 r2 have "execute m = Some (finish r2)"
        by (simp add: execute_def AFTER_RENDER_PHASES_def m0_def[symmetric])
      with r2 Thrown show ?thesis by (intro exI[of _ r2]) simp
    next
      case R2: (Returned m2)
      with r2 have m2: "I Write (length E) m2" "executing m2" "sequences m2 = E" by simp_all
      have "I MixedReadWrite 0 m2" using m2(1) by (rule nxt) simp
      from phase[OF this m2(2,3)]
      obtain r3 where r3: "run_phase MixedReadWrite 0 m2 = Some r3" "executing (state_of r3)"
        "sequences (state_of r3) = E"
        "if returned r3 then I MixedReadWrite (length E) (state_of r3)
         else \<exists>q j. I q j (state_of r3)"
        by blast
      show ?thesis
      proof (cases r3)
        case (Thrown err x3)
        with r1 R1 r2 R2 r3 have "execute m = Some (finish r3)"
          by (simp add: execute_def AFTER_RENDER_PHASES_def m0_def[symmetric])
        with r3 Thrown show ?thesis by (intro exI[of _ r3]) simp
      next
        case R3: (Returned m3)
        with r3 have m3: "I MixedReadWrite (length E) m3" "executing m3" "sequences m3 = E"
          by simp_all
        have "I Read 0 m3" using m3(1) by (rule nxt) simp
        from phase[OF this m3(2,3)]
        obtain r4 where r4: "run_phase Read 0 m3 = Some r4" "executing (state_of r4)"
          "sequences (state_of r4) = E"
          "if returned r4 then I Read (length E) (state_of r4) else \<exists>q j. I q j (state_of r4)"
          by blast
        have "execute m = Some (finish r4)"
          using r1 R1 r2 R2 r3 R3 r4
          by (cases r4) (simp_all add: execute_def AFTER_RENDER_PHASES_def m0_def[symmetric])
        with r4 show ?thesis by (intro exI[of _ r4]) simp
      qed
    qed
  qed
qed

subsection \<open>Hooks that throw\<close>

text \<open>The handler receives exactly the errors thrown, in order, if there is a handler.\<close>

definition forwarding :: "('v, 'e) manager \<Rightarrow> ('v, 'e) manager \<Rightarrow> bool" where
  "forwarding m0 m =
     (errorHandler m = errorHandler m0 \<and>
      handled_errors (events m) =
        (if errorHandler m0 = None then [] else thrown_errors (events m)))"

lemma forwarding_step:
  assumes "forwarding m0 m" "executing m"
  shows "forwarding m0 (state_of (invoke p s m))"
proof (cases "runs p s m")
  case False
  with assms show ?thesis by (simp add: invoke_skip)
next
  case True
  with assms show ?thesis
    by (auto simp: forwarding_def invoke_events split: sum.splits option.splits)
qed

text \<open>
  Why a sequence may be kept from running: it was marked when the execution began, one of
  its own hooks threw, or \<open>unregister\<close> was called for it.
\<close>

definition stopped :: "('v, 'e) manager \<Rightarrow> sequence_ref \<Rightarrow> ('v, 'e) event list \<Rightarrow> bool" where
  "stopped m0 t ev =
     (erroredOrDestroyed (objects m0 t) \<or> (\<exists>p a err. Invoked t p a (Inl err) \<in> set ev) \<or>
      Unregistered t \<in> set ev)"

lemma stopped_mono: "stopped m0 t ev \<Longrightarrow> stopped m0 t (ev @ ev')"
  by (auto simp: stopped_def)

definition blamed :: "('v, 'e) manager \<Rightarrow> ('v, 'e) manager \<Rightarrow> bool" where
  "blamed m0 m =
     ((\<forall>t. hooks (objects m t) = hooks (objects m0 t)) \<and>
      (\<forall>t. erroredOrDestroyed (objects m t) \<longrightarrow> stopped m0 t (events m)))"

lemma blamed_step:
  assumes "blamed m0 m" "executing m"
  shows "blamed m0 (state_of (invoke p s m))"
proof (cases "runs p s m")
  case False
  with assms show ?thesis by (simp add: invoke_skip)
next
  case True
  define cs where "cs = calls (the_run p s m)"
  define out where "out = outcome (the_run p s m)"
  define new where "new = Invoked s p (pipelinedValue (objects m s)) out #
             concat (map call_events cs) @ handled (errorHandler m) out"
  have ev: "events (state_of (invoke p s m)) = events m @ new"
    using invoke_events[OF assms(2) True] by (simp add: new_def cs_def out_def)
  have "stopped m0 t (events (state_of (invoke p s m)))"
    if e: "erroredOrDestroyed (objects (state_of (invoke p s m)) t)" for t
  proof (cases "erroredOrDestroyed (objects m t)")
    case True
    then have "stopped m0 t (events m)" using assms(1) by (simp add: blamed_def)
    then show ?thesis unfolding ev by (rule stopped_mono)
  next
    case live: False
    show ?thesis
    proof (cases "cancelled cs t")
      case True
      then have "Unregistered t \<in> set (concat (map call_events cs))"
        using cancelled_events[of cs t] by blast
      then have "Unregistered t \<in> set new" unfolding new_def by (simp only: set_append set_simps Un_iff insert_iff) blast
      then show ?thesis by (simp add: stopped_def ev)
    next
      case nc: False
      have ts: "t = s"
      proof (rule ccontr)
        assume "t \<noteq> s"
        from invoke_objects_other[OF assms(2) this, of p] nc live e show False
          by (simp add: cs_def)
      qed
      have "\<exists>err. out = Inl err"
        using invoke_objects_self[OF assms(2) True] nc live e ts
        by (cases out) (simp_all add: cs_def out_def[symmetric] Let_def)
      then show ?thesis by (auto simp: stopped_def ev new_def ts)
    qed
  qed
  then show ?thesis
    using assms by (simp add: blamed_def invoke_hooks)
qed

text \<open>
  In phase \<open>p\<close> before entry \<open>i\<close>: every hook that the loops have passed was invoked, unless
  its sequence was stopped.
\<close>

definition covered ::
  "sequence_ref js_set \<Rightarrow> ('v, 'e) manager \<Rightarrow> AfterRenderPhase \<Rightarrow> nat \<Rightarrow> ('v, 'e) manager \<Rightarrow> bool"
  where
  "covered E m0 p i m =
     (\<forall>t q. set_has E t \<and> hooks (objects m0 t) q \<noteq> None \<and>
            (phase_index q < phase_index p \<or> (q = p \<and> t \<in> visited E i)) \<longrightarrow>
            (\<exists>a out. Invoked t q a out \<in> set (events m)) \<or> stopped m0 t (events m))"

lemma covered_mono:
  assumes "covered E m0 p i m" "events m' = events m @ new"
  shows "covered E m0 p i m'"
  unfolding covered_def
proof (intro allI impI)
  fix t q
  assume "set_has E t \<and> hooks (objects m0 t) q \<noteq> None \<and>
            (phase_index q < phase_index p \<or> (q = p \<and> t \<in> visited E i))"
  with assms(1) have "(\<exists>a out. Invoked t q a out \<in> set (events m)) \<or> stopped m0 t (events m)"
    unfolding covered_def by blast
  then show "(\<exists>a out. Invoked t q a out \<in> set (events m')) \<or> stopped m0 t (events m')"
    using stopped_mono[of m0 t "events m" new] by (auto simp: assms(2))
qed

lemma invoke_events_extend:
  "executing m \<Longrightarrow> \<exists>new. events (state_of (invoke p s m)) = events m @ new"
  by (cases "runs p s m") (simp_all add: invoke_events invoke_skip)

lemma covered_step:
  assumes "covered E m0 p j m" "blamed m0 m" "executing m" "j < length E" "E ! j = Some s"
  shows "covered E m0 p (Suc j) (state_of (invoke p s m))"
proof -
  obtain new where new: "events (state_of (invoke p s m)) = events m @ new"
    using invoke_events_extend[OF assms(3)] by blast
  have old: "covered E m0 p j (state_of (invoke p s m))"
    using assms(1) new by (rule covered_mono)
  have v: "visited E (Suc j) = insert s (visited E j)"
    using assms(4,5) by (rule visited_Suc_Some)
  have this_one: "(\<exists>a out. Invoked s p a out \<in> set (events (state_of (invoke p s m)))) \<or>
      stopped m0 s (events (state_of (invoke p s m)))" if h: "hooks (objects m0 s) p \<noteq> None"
  proof (cases "runs p s m")
    case True
    then show ?thesis using invoke_events[OF assms(3) True] by auto
  next
    case False
    then have "erroredOrDestroyed (objects m s)"
      using h assms(2) by (auto simp: runs_def blamed_def)
    then have "stopped m0 s (events m)" using assms(2) by (simp add: blamed_def)
    then show ?thesis using False by (simp add: invoke_skip)
  qed
  show ?thesis
    unfolding covered_def v
  proof (intro allI impI)
    fix t q
    assume a: "set_has E t \<and> hooks (objects m0 t) q \<noteq> None \<and>
            (phase_index q < phase_index p \<or> (q = p \<and> t \<in> insert s (visited E j)))"
    show "(\<exists>a out. Invoked t q a out \<in> set (events (state_of (invoke p s m)))) \<or>
          stopped m0 t (events (state_of (invoke p s m)))"
    proof (cases "q = p \<and> t = s")
      case True
      with a this_one show ?thesis by simp
    next
      case False
      with a have "set_has E t \<and> hooks (objects m0 t) q \<noteq> None \<and>
            (phase_index q < phase_index p \<or> (q = p \<and> t \<in> visited E j))" by auto
      with old show ?thesis unfolding covered_def by blast
    qed
  qed
qed

lemma covered_skip:
  assumes "covered E m0 p j m" "j < length E" "E ! j = None"
  shows "covered E m0 p (Suc j) m"
  using assms by (simp add: covered_def visited_Suc_None)

lemma phase_index_inj: "phase_index q = phase_index p \<Longrightarrow> q = p"
  by (cases q; cases p) simp_all

lemma covered_next:
  assumes "covered E m0 p (length E) m" "phase_index q = Suc (phase_index p)"
  shows "covered E m0 q 0 m"
  unfolding covered_def
proof (intro allI impI)
  fix t q'
  assume a: "set_has E t \<and> hooks (objects m0 t) q' \<noteq> None \<and>
            (phase_index q' < phase_index q \<or> (q' = q \<and> t \<in> visited E 0))"
  then have "phase_index q' \<le> phase_index p"
    using assms(2) by auto
  then have "phase_index q' < phase_index p \<or> q' = p"
    using phase_index_inj[of q' p] by (auto simp: le_less)
  moreover have "t \<in> visited E (length E)" using a by (simp add: visited_all)
  ultimately show "(\<exists>a out. Invoked t q' a out \<in> set (events m)) \<or> stopped m0 t (events m)"
    using assms(1) a unfolding covered_def by blast
qed



subsection \<open>The pipelined value\<close>

text \<open>
  The hooks of sequence \<open>s\<close> invoked in a list of events: phase, argument and outcome, in
  order.
\<close>

fun hook_runs ::
  "sequence_ref \<Rightarrow> ('v, 'e) event list \<Rightarrow> (AfterRenderPhase \<times> 'v option \<times> ('e + 'v option)) list"
  where
  "hook_runs s [] = []"
| "hook_runs s (Invoked t p a out # es) =
     (if t = s then (p, a, out) # hook_runs s es else hook_runs s es)"
| "hook_runs s (e # es) = hook_runs s es"

text \<open>
  What the hooks \<open>hs\<close> of one sequence do along the phases \<open>ps\<close> if nothing stops the
  sequence from outside, starting with the value \<open>v\<close>: a phase without a hook is passed
  over and leaves the value as it is; a hook receives the value and what it returns is the
  value from then on; a hook that throws is the last one.
\<close>

fun pipe ::
  "(AfterRenderPhase \<Rightarrow> ('v, 'e) AfterRenderHook option) \<Rightarrow> 'v option \<Rightarrow>
   AfterRenderPhase list \<Rightarrow> (AfterRenderPhase \<times> 'v option \<times> ('e + 'v option)) list" where
  "pipe hs v [] = []"
| "pipe hs v (p # ps) =
     (case hs p of
        None \<Rightarrow> pipe hs v ps
      | Some hook \<Rightarrow>
          (p, v, outcome (hook v)) #
          (case outcome (hook v) of Inr v' \<Rightarrow> pipe hs v' ps | Inl err \<Rightarrow> []))"




lemma hook_runs_append [simp]: "hook_runs s (xs @ ys) = hook_runs s xs @ hook_runs s ys"
  by (induction s xs rule: hook_runs.induct) simp_all

lemma hook_runs_none:
  "(\<forall>e \<in> set xs. \<forall>t p a out. e \<noteq> Invoked t p a out) \<Longrightarrow> hook_runs s xs = []"
  by (induction s xs rule: hook_runs.induct) simp_all

lemma hook_runs_calls [simp]: "hook_runs s (concat (map call_events cs)) = []"
proof (induction cs)
  case (Cons c cs)
  then show ?case by (cases c) simp_all
qed simp

lemma hook_runs_handled [simp]: "hook_runs s (handled h out) = []"
  by (cases out; cases h) (simp_all add: handled_def)

lemma hook_runs_invocations: "map fst (hook_runs s xs) = map snd (filter (\<lambda>x. fst x = s) (invocations xs))"
  by (induction s xs rule: hook_runs.induct) simp_all


lemma after_phases_hook_runs:
  "\<exists>new. events (after_phases m) = events m @ new \<and> (\<forall>s. hook_runs s new = []) \<and>
         invocations new = []"
proof -
  define K where "K = {t. set_has (sequences m) t \<and> once (objects m t)}"
  obtain xs where xs: "events (after_phases m) =
      events m @ xs @ (if \<exists>t. set_has (deferredRegistrations m) t \<and> t \<notin> K
                        then [Notified DeferredRenderHook] else [])"
    "set xs = Destroyed ` K \<union> Unregistered ` K"
    using after_phases_spec(7)[of m] unfolding K_def by blast
  have "hook_runs s xs = []" for s by (rule hook_runs_none) (use xs(2) in auto)
  moreover have "invocations xs = []" by (rule invocations_bookkeeping[OF xs(2)])
  ultimately show ?thesis
    using xs(1)
    by (intro exI[of _ "xs @ (if \<exists>t. set_has (deferredRegistrations m) t \<and> t \<notin> K
                        then [Notified DeferredRenderHook] else [])"]) simp
qed

text \<open>The phases after \<open>p\<close>, and the phases in which the sequence \<open>t\<close> still has its turn.\<close>

definition later :: "AfterRenderPhase \<Rightarrow> AfterRenderPhase list" where
  "later p = filter (\<lambda>q. phase_index p < phase_index q) AFTER_RENDER_PHASES"

definition remaining ::
  "sequence_ref js_set \<Rightarrow> AfterRenderPhase \<Rightarrow> nat \<Rightarrow> sequence_ref \<Rightarrow> AfterRenderPhase list" where
  "remaining E p i t = (if t \<in> visited E i then later p else p # later p)"

lemma later_next: "phase_index q = Suc (phase_index p) \<Longrightarrow> later p = q # later q"
  by (cases p; cases q) (simp_all add: later_def AFTER_RENDER_PHASES_def)

lemma remaining_start: "remaining E EarlyRead 0 t = AFTER_RENDER_PHASES"
  by (simp add: remaining_def later_def AFTER_RENDER_PHASES_def)

lemma remaining_end: "set_has E t \<Longrightarrow> remaining E Read (length E) t = []"
  by (simp add: remaining_def later_def AFTER_RENDER_PHASES_def visited_all)

text \<open>
  The invariant of the phase loops for one sequence, where \<open>ps\<close> are the phases in which
  the sequence still has its turn. A sequence that was marked when the execution began is
  still marked and none of its hooks was invoked. For any other sequence, the hooks invoked
  so far are the beginning of what its hooks do along the four phases from the value it
  held when the execution began; if the sequence is not marked, the rest is what its hooks
  do along \<open>ps\<close> from the value it holds now; if it is marked, there is no rest, unless
  \<open>unregister\<close> was called for it.
\<close>

definition piped_one ::
  "('v, 'e) manager \<Rightarrow> ('v, 'e) manager \<Rightarrow> sequence_ref \<Rightarrow> AfterRenderPhase list \<Rightarrow> bool" where
  "piped_one m0 m t ps =
     (if erroredOrDestroyed (objects m0 t)
      then erroredOrDestroyed (objects m t) \<and> hook_runs t (events m) = []
      else \<exists>rest.
             pipe (hooks (objects m0 t)) (pipelinedValue (objects m0 t)) AFTER_RENDER_PHASES
               = hook_runs t (events m) @ rest \<and>
             (if erroredOrDestroyed (objects m t)
              then Unregistered t \<in> set (events m) \<or> rest = []
              else rest = pipe (hooks (objects m0 t)) (pipelinedValue (objects m t)) ps))"

text \<open>The same for every sequence of the active set, in phase \<open>p\<close> before entry \<open>i\<close>.\<close>

definition piped ::
  "sequence_ref js_set \<Rightarrow> ('v, 'e) manager \<Rightarrow> AfterRenderPhase \<Rightarrow> nat \<Rightarrow> ('v, 'e) manager \<Rightarrow> bool"
  where
  "piped E m0 p i m = (\<forall>t. set_has E t \<longrightarrow> piped_one m0 m t (remaining E p i t))"

lemma piped_start:
  "events m = [] \<Longrightarrow> piped (sequences m) m EarlyRead 0 (m\<lparr>executing := True\<rparr>)"
  by (simp add: piped_def piped_one_def remaining_start)

lemma piped_skip:
  assumes "piped E m0 p j m" "j < length E" "E ! j = None"
  shows "piped E m0 p (Suc j) m"
proof -
  have "remaining E p (Suc j) t = remaining E p j t" for t
    using assms(2,3) by (simp add: remaining_def visited_Suc_None)
  with assms(1) show ?thesis by (simp add: piped_def)
qed

lemma piped_next:
  assumes "piped E m0 p (length E) m" "phase_index q = Suc (phase_index p)"
  shows "piped E m0 q 0 m"
proof -
  have "remaining E q 0 t = remaining E p (length E) t" if "set_has E t" for t
    using that later_next[OF assms(2)] by (simp add: remaining_def visited_all)
  with assms(1) show ?thesis by (simp add: piped_def)
qed

lemma piped_one_passed_over:
  assumes "piped_one m0 m s (p # ps)"
    "erroredOrDestroyed (objects m s) \<or> hooks (objects m0 s) p = None"
  shows "piped_one m0 m s ps"
proof (cases "erroredOrDestroyed (objects m s)")
  case True
  with assms(1) show ?thesis by (auto simp: piped_one_def split: if_splits)
next
  case False
  with assms(2) have "pipe (hooks (objects m0 s)) x (p # ps) = pipe (hooks (objects m0 s)) x ps"
    for x by simp
  with assms(1) show ?thesis by (simp only: piped_one_def)
qed

lemma piped_one_other:
  assumes "piped_one m0 m t ps" "hook_runs t (events m') = hook_runs t (events m)"
    "objects m' t = objects m t \<or>
     objects m' t = mark (objects m t) \<and> Unregistered t \<in> set (events m')"
    "Unregistered t \<in> set (events m) \<Longrightarrow> Unregistered t \<in> set (events m')"
  shows "piped_one m0 m' t ps"
proof (cases "erroredOrDestroyed (objects m0 t)")
  case True
  with assms(1) have "erroredOrDestroyed (objects m t)" "hook_runs t (events m) = []"
    by (simp_all add: piped_one_def)
  with True assms(2,3) show ?thesis by (auto simp: piped_one_def mark_def)
next
  case False
  with assms(1) obtain rest where rest:
    "pipe (hooks (objects m0 t)) (pipelinedValue (objects m0 t)) AFTER_RENDER_PHASES
       = hook_runs t (events m) @ rest"
    "if erroredOrDestroyed (objects m t)
     then Unregistered t \<in> set (events m) \<or> rest = []
     else rest = pipe (hooks (objects m0 t)) (pipelinedValue (objects m t)) ps"
    unfolding piped_one_def by auto
  from assms(3) show ?thesis
  proof
    assume "objects m' t = objects m t"
    with False rest assms(2,4) show ?thesis
      unfolding piped_one_def by auto
  next
    assume "objects m' t = mark (objects m t) \<and> Unregistered t \<in> set (events m')"
    with False rest(1) assms(2) show ?thesis
      unfolding piped_one_def by (auto simp: mark_def)
  qed
qed

lemma piped_one_turn:
  assumes "piped_one m0 m s (p # ps)" "\<not> erroredOrDestroyed (objects m s)"
    "hooks (objects m0 s) p = Some hook"
    "hook_runs s (events m') =
       hook_runs s (events m) @
         [(p, pipelinedValue (objects m s), outcome (hook (pipelinedValue (objects m s))))]"
    "erroredOrDestroyed (objects m' s) \<and> Unregistered s \<in> set (events m') \<or>
     (case outcome (hook (pipelinedValue (objects m s))) of
        Inr v \<Rightarrow> \<not> erroredOrDestroyed (objects m' s) \<and> pipelinedValue (objects m' s) = v
      | Inl err \<Rightarrow> erroredOrDestroyed (objects m' s))"
  shows "piped_one m0 m' s ps"
proof -
  define arg where "arg = pipelinedValue (objects m s)"
  define out where "out = outcome (hook arg)"
  have unmarked: "\<not> erroredOrDestroyed (objects m0 s)"
    using assms(1,2) unfolding piped_one_def by auto
  with assms(1,2) have whole:
    "pipe (hooks (objects m0 s)) (pipelinedValue (objects m0 s)) AFTER_RENDER_PHASES
       = hook_runs s (events m) @ pipe (hooks (objects m0 s)) arg (p # ps)"
    unfolding piped_one_def arg_def by auto
  define rest where "rest =
    (case out of Inr v' \<Rightarrow> pipe (hooks (objects m0 s)) v' ps | Inl err \<Rightarrow> [])"
  have "pipe (hooks (objects m0 s)) arg (p # ps) = (p, arg, out) # rest"
    using assms(3) by (simp add: rest_def out_def)
  with whole assms(4) have w:
    "pipe (hooks (objects m0 s)) (pipelinedValue (objects m0 s)) AFTER_RENDER_PHASES
       = hook_runs s (events m') @ rest"
    by (simp add: arg_def out_def)
  have "if erroredOrDestroyed (objects m' s)
        then Unregistered s \<in> set (events m') \<or> rest = []
        else rest = pipe (hooks (objects m0 s)) (pipelinedValue (objects m' s)) ps"
    using assms(5) unfolding arg_def[symmetric] out_def[symmetric]
    by (cases out) (auto simp: rest_def)
  with w unmarked show ?thesis unfolding piped_one_def by auto
qed

lemma piped_step:
  assumes wf: "set_wf E" and inv: "piped E m0 p j m"
    and hs: "\<forall>t. hooks (objects m t) = hooks (objects m0 t)"
    and ex: "executing m" and sq: "sequences m = E" and j: "j < length E" "E ! j = Some s"
  shows "piped E m0 p (Suc j) (state_of (invoke p s m))"
proof -
  have v: "visited E (Suc j) = insert s (visited E j)"
    using j by (rule visited_Suc_Some)
  have fresh: "s \<notin> visited E j"
  proof
    assume "s \<in> visited E j"
    then obtain k where "k < j" "k < length E" "E ! k = Some s" by (auto simp: visited_def)
    with set_wf_nth_inj[OF wf _ j(1) _ j(2), of k] show False by simp
  qed
  have has: "set_has E s" using j by (metis nth_mem set_has_def)
  have rem_s: "remaining E p j s = p # later p" "remaining E p (Suc j) s = later p"
    using fresh by (simp_all add: remaining_def v)
  have rem_t: "remaining E p (Suc j) t = remaining E p j t" if "t \<noteq> s" for t
    using that by (simp add: remaining_def v)
  have before: "piped_one m0 m t (remaining E p j t)" if "set_has E t" for t
    using inv that by (simp add: piped_def)
  define m' where "m' = state_of (invoke p s m)"
  have "piped_one m0 m' t (remaining E p (Suc j) t)" if t: "set_has E t" for t
  proof (cases "runs p s m")
    case False
    then have same: "m' = m" by (simp add: m'_def invoke_skip)
    show ?thesis
    proof (cases "t = s")
      case ne: False
      with before[OF t] show ?thesis by (simp add: same rem_t)
    next
      case True
      have "erroredOrDestroyed (objects m s) \<or> hooks (objects m0 s) p = None"
        using False hs by (auto simp: runs_def)
      with before[OF has] show ?thesis
        unfolding same True rem_s by (rule piped_one_passed_over)
    qed
  next
    case True
    define cs where "cs = calls (the_run p s m)"
    define out where "out = outcome (the_run p s m)"
    define arg where "arg = pipelinedValue (objects m s)"
    have ev: "events m' = events m @ Invoked s p arg out #
               concat (map call_events cs) @ handled (errorHandler m) out"
      using invoke_events[OF ex True] by (simp add: m'_def cs_def out_def arg_def)
    have hr: "hook_runs t (events m') =
        hook_runs t (events m) @ (if t = s then [(p, arg, out)] else [])" for t
      by (simp add: ev)
    have live: "\<not> erroredOrDestroyed (objects m s)" using True by (simp add: runs_def)
    obtain hook where hook: "hooks (objects m s) p = Some hook"
      using True by (auto simp: runs_def)
    have run: "the_run p s m = hook arg" using hook by (simp add: the_run_def arg_def)
    have hook0: "hooks (objects m0 s) p = Some hook" using hook hs by simp
    have unr: "Unregistered t \<in> set (events m')" if "cancelled cs t" for t
    proof -
      have "Unregistered t \<in> set (concat (map call_events cs))"
        using that cancelled_events[of cs t] by blast
      then show ?thesis unfolding ev by (simp only: set_append set_simps Un_iff insert_iff) blast
    qed
    have keep: "Unregistered t \<in> set (events m')" if "Unregistered t \<in> set (events m)" for t
      using that by (simp add: ev)
    show ?thesis
    proof (cases "t = s")
      case ne: False
      have ob: "objects m' t = (if cancelled cs t then mark (objects m t) else objects m t)"
        using invoke_objects_other[OF ex ne, of p] True t sq by (simp add: m'_def cs_def)
      have "piped_one m0 m' t (remaining E p j t)"
        using before[OF t]
      proof (rule piped_one_other)
        show "hook_runs t (events m') = hook_runs t (events m)" using ne by (simp add: hr)
        show "objects m' t = objects m t \<or>
              objects m' t = mark (objects m t) \<and> Unregistered t \<in> set (events m')"
          using unr[of t] by (simp add: ob)
        show "Unregistered t \<in> set (events m) \<Longrightarrow> Unregistered t \<in> set (events m')"
          by (rule keep)
      qed
      then show ?thesis using ne by (simp add: rem_t)
    next
      case ts: True
      have ob: "objects m' s =
           (let x = (if cancelled cs s then mark (objects m s) else objects m s)
            in case out of
                 Inr v \<Rightarrow> x\<lparr>pipelinedValue := v\<rparr>
               | Inl err \<Rightarrow> x\<lparr>erroredOrDestroyed := True\<rparr>)"
        using invoke_objects_self[OF ex True] has sq
        by (simp add: m'_def cs_def out_def)
      have o: "out = outcome (hook (pipelinedValue (objects m s)))"
        by (simp add: out_def run arg_def)
      have "piped_one m0 m' s (later p)"
        using before[OF has, unfolded rem_s] live hook0
      proof (rule piped_one_turn)
        show "hook_runs s (events m') =
          hook_runs s (events m) @
            [(p, pipelinedValue (objects m s), outcome (hook (pipelinedValue (objects m s))))]"
          using hr[of s] by (simp add: o[symmetric] arg_def)
        show "erroredOrDestroyed (objects m' s) \<and> Unregistered s \<in> set (events m') \<or>
          (case outcome (hook (pipelinedValue (objects m s))) of
             Inr v \<Rightarrow> \<not> erroredOrDestroyed (objects m' s) \<and> pipelinedValue (objects m' s) = v
           | Inl err \<Rightarrow> erroredOrDestroyed (objects m' s))"
          unfolding o[symmetric]
        proof (cases "cancelled cs s")
          case c: True
          then show "erroredOrDestroyed (objects m' s) \<and> Unregistered s \<in> set (events m') \<or>
            (case out of
               Inr v \<Rightarrow> \<not> erroredOrDestroyed (objects m' s) \<and> pipelinedValue (objects m' s) = v
             | Inl err \<Rightarrow> erroredOrDestroyed (objects m' s))"
            using unr[OF c] by (cases out) (simp_all add: ob mark_def)
        next
          case nc: False
          then show "erroredOrDestroyed (objects m' s) \<and> Unregistered s \<in> set (events m') \<or>
            (case out of
               Inr v \<Rightarrow> \<not> erroredOrDestroyed (objects m' s) \<and> pipelinedValue (objects m' s) = v
             | Inl err \<Rightarrow> erroredOrDestroyed (objects m' s))"
            using live by (cases out) (simp_all add: ob)
        qed
      qed
      then show ?thesis by (simp add: ts rem_s)
    qed
  qed
  then show ?thesis unfolding piped_def m'_def by blast
qed

text \<open>The invariants of one execution, together.\<close>

definition traced ::
  "('v, 'e) manager \<Rightarrow> AfterRenderPhase \<Rightarrow> nat \<Rightarrow> ('v, 'e) manager \<Rightarrow> bool" where
  "traced m0 p i m =
     (ordered (sequences m0) p i m \<and> forwarding m0 m \<and> blamed m0 m \<and>
      covered (sequences m0) m0 p i m \<and> piped (sequences m0) m0 p i m)"

lemma execute_traced:
  fixes m :: "('v, 'e) manager"
  assumes "set_wf (sequences m)" "events m = []"
  shows "\<exists>r1. execute m = Some (finish r1) \<and> executing (state_of r1) \<and>
           sequences (state_of r1) = sequences m \<and>
           (if returned r1 then traced m Read (length (sequences m)) (state_of r1)
            else \<exists>p j. traced m p j (state_of r1))"
proof (rule execute_rule)
  show "traced m EarlyRead 0 (m\<lparr>executing := True\<rparr>)"
    using assms(2)
    by (simp add: traced_def ordered_def forwarding_def blamed_def stopped_def covered_def
        piped_start)
next
  fix p j x s
  assume a: "traced m p j x" "executing x" "sequences x = sequences m"
    "j < length (sequences m)" "sequences m ! j = Some s"
  from a(1) have hs: "\<forall>t. hooks (objects x t) = hooks (objects m t)"
    by (simp add: traced_def blamed_def)
  from a(1) have "piped (sequences m) m p j x" by (simp add: traced_def)
  from piped_step[OF assms(1) this hs a(2-5)] a
  show "traced m p (Suc j) (state_of (invoke p s x))"
    using assms(1)
    by (simp add: traced_def ordered_step forwarding_step blamed_step covered_step)
next
  fix p j x
  assume "traced m p j x" "j < length (sequences m)" "sequences m ! j = None"
  then show "traced m p (Suc j) x"
    by (simp add: traced_def ordered_skip covered_skip piped_skip)
next
  fix p q x
  assume "traced m p (length (sequences m)) x" "phase_index q = Suc (phase_index p)"
  then show "traced m q 0 x"
    using covered_next[of "sequences m" m p x q] piped_next[of "sequences m" m p x q]
      ordered_next[of "sequences m" p "length (sequences m)" x q]
    by (simp add: traced_def)
qed

subsection \<open>One execution, from any state\<close>

lemma stopped_erased [simp]: "stopped (m\<lparr>events := []\<rparr>) = stopped m"
  by (simp add: stopped_def fun_eq_iff)

lemma handler_quiet_erased [simp]: "handler_quiet (m\<lparr>events := []\<rparr>) = handler_quiet m"
  by (simp add: handler_quiet_def fun_eq_iff)

lemma answer_erased [simp]: "answer (m\<lparr>events := []\<rparr>) = answer m"
  by (simp add: answer_def fun_eq_iff)





lemma traced_pipe:
  assumes "traced m p j x" "set_has (sequences m) t"
  shows "if erroredOrDestroyed (objects m t) then hook_runs t (events x) = []
         else \<exists>rest.
                pipe (hooks (objects m t)) (pipelinedValue (objects m t)) AFTER_RENDER_PHASES
                  = hook_runs t (events x) @ rest \<and>
                (p = Read \<and> j = length (sequences m) \<and> Unregistered t \<notin> set (events x)
                   \<longrightarrow> rest = [])"
proof -
  from assms have one: "piped_one m x t (remaining (sequences m) p j t)"
    by (simp add: traced_def piped_def)
  show ?thesis
  proof (cases "erroredOrDestroyed (objects m t)")
    case True
    with one show ?thesis by (simp add: piped_one_def)
  next
    case False
    with one obtain rest where rest:
      "pipe (hooks (objects m t)) (pipelinedValue (objects m t)) AFTER_RENDER_PHASES
         = hook_runs t (events x) @ rest"
      "if erroredOrDestroyed (objects x t)
       then Unregistered t \<in> set (events x) \<or> rest = []
       else rest = pipe (hooks (objects m t)) (pipelinedValue (objects x t))
                     (remaining (sequences m) p j t)"
      unfolding piped_one_def by auto
    have "rest = []"
      if "p = Read" "j = length (sequences m)" "Unregistered t \<notin> set (events x)"
      using rest(2) that assms(2) by (auto simp: remaining_end split: if_splits)
    with rest(1) False show ?thesis by auto
  qed
qed





text \<open>
  An execution from any state \<open>m\<close>, seen from the same state with an empty history: the
  phases end as \<open>r0\<close>, their events are the events of \<open>r0\<close>, and the events that follow
  them are \<open>new2\<close>.
\<close>

lemma execute_erased:
  fixes m :: "('v, 'e) manager"
  assumes "set_wf (sequences m)"
  shows "\<exists>r0 new2.
           execute m = Some (finish (map_state (prepend (events m)) r0)) \<and>
           events (state_of (finish r0)) = events (state_of r0) @ new2 \<and>
           invocations new2 = [] \<and> (\<forall>s. hook_runs s new2 = []) \<and>
           handled_errors new2 = [] \<and> thrown_errors new2 = [] \<and>
           executing (state_of r0) \<and> sequences (state_of r0) = sequences m \<and>
           returned r0 = list_all (handler_quiet m) (handled_errors (events (state_of r0))) \<and>
           thrown r0 = answer m (handled_errors (events (state_of r0))) \<and>
           (if returned r0
            then traced (m\<lparr>events := []\<rparr>) Read (length (sequences m)) (state_of r0)
            else \<exists>p j. traced (m\<lparr>events := []\<rparr>) p j (state_of r0))"
proof -
  define m0 where "m0 = m\<lparr>events := []\<rparr>"
  have m0: "set_wf (sequences m0)" "events m0 = []" "sequences m0 = sequences m"
    using assms by (simp_all add: m0_def)
  obtain r0 where r0: "execute m0 = Some (finish r0)" "executing (state_of r0)"
    "sequences (state_of r0) = sequences m0"
    "if returned r0 then traced m0 Read (length (sequences m0)) (state_of r0)
     else \<exists>p j. traced m0 p j (state_of r0)"
    using execute_traced[OF m0(1,2)] by blast
  have 1: "execute m = Some (finish (map_state (prepend (events m)) r0))"
    using execute_from_erased[of m "finish r0"] r0(1)
    by (simp add: m0_def finish_map_state prepend_after_phases)
  obtain new2 where new2: "events (state_of (finish r0)) = events (state_of r0) @ new2"
    "invocations new2 = []" "\<forall>s. hook_runs s new2 = []" "handled_errors new2 = []"
    "thrown_errors new2 = []"
  proof (cases r0)
    case (Thrown err x)
    then have "events (state_of (finish r0)) = events (state_of r0) @ []" by simp
    then show ?thesis using that[of "[]"] by simp
  next
    case (Returned x)
    obtain a where a: "events (after_phases x) = events x @ a" "\<forall>s. hook_runs s a = []"
      "invocations a = []"
      using after_phases_hook_runs[of x] by blast
    obtain b where b: "events (after_phases x) = events x @ b" "handled_errors b = []"
      "thrown_errors b = []"
      using after_phases_handled_errors[of x] by blast
    from a(1) b(1) have "a = b" by simp
    with a b Returned show ?thesis using that[of a] by simp
  qed
  obtain new where new: "events (state_of (finish r0)) = new"
    "returned (finish r0) = list_all (handler_quiet m0) (handled_errors new)"
    "thrown (finish r0) = answer m0 (handled_errors new)"
    using ends_by_handler_execute[of m0] r0(1) m0(2) by (auto simp: ends_by_handler_def)
  have "new = events (state_of r0) @ new2" using new(1) new2(1) by simp
  then have h: "handled_errors new = handled_errors (events (state_of r0))"
    using new2(4) by simp
  have 2: "returned r0 = list_all (handler_quiet m) (handled_errors (events (state_of r0)))"
    "thrown r0 = answer m (handled_errors (events (state_of r0)))"
    using new(2,3) by (simp_all add: h m0_def)
  from 1 new2 r0(2-4) 2 show ?thesis
    unfolding m0(3) unfolding m0_def by blast
qed

subsection \<open>The order of the phases\<close>




subsection \<open>The value passed from hook to hook\<close>

definition object_of :: "sequence_ref \<Rightarrow> ('v, 'e) manager \<Rightarrow> ('v, 'e) AfterRenderSequence" where
  "object_of s m = objects m s"

text \<open>
  Two executions of the example. With the handler that returns, the early-read hook of
  sequence 3 returns 1 and its read hook would receive it, but the write hook of sequence 1
  unregisters sequence 3 in between: the read hook of sequence 3 is not invoked. With the
  handler that throws the error of the write hook of sequence 4, the execution ends there
  by that exception: the read hook of sequence 0 does not receive the value 11 that its
  write hook returned, the cleanup does not run, and sequence 0 still holds 11 when the
  execution has ended; the next execution hands that value to its early-read hook.
\<close>

theorem execute_pipelines_values_counterexample:
  "pipe (hooks (objects example_manager 3)) None AFTER_RENDER_PHASES
     = [(EarlyRead, None, Inr (Some 1)), (Read, Some 1, Inr (Some 2))] \<and>
   map_option (hook_runs 3 \<circ> events \<circ> state_of) (execute example_manager)
     = Some [(EarlyRead, None, Inr (Some 1))] \<and>
   map_option thrown (execute example_manager) = Some None \<and>
   pipe (hooks (objects rethrowing_example 0)) None AFTER_RENDER_PHASES
     = [(EarlyRead, None, Inr (Some 10)), (Write, Some 10, Inr (Some 11)),
        (Read, Some 11, Inr (Some 22))] \<and>
   map_option (hook_runs 0 \<circ> events \<circ> state_of) (execute rethrowing_example)
     = Some [(EarlyRead, None, Inr (Some 10)), (Write, Some 10, Inr (Some 11))] \<and>
   map_option thrown (execute rethrowing_example) = Some (Some ''boom'') \<and>
   map_option (pipelinedValue \<circ> object_of 0 \<circ> state_of) (execute rethrowing_example)
     = Some (Some 11) \<and>
   map_option (events \<circ> state_of)
     (Option.bind (execute rethrowing_example) (execute \<circ> state_of)) =
     Some [Invoked 0 EarlyRead None (Inr (Some 10)),
           Invoked 3 EarlyRead None (Inr (Some 1)),
           Invoked 0 Write (Some 10) (Inr (Some 11)),
           Invoked 1 Write None (Inr None), Registered 2, Unregistered 3,
           Invoked 4 Write None (Inl ''boom''), Handled ''boom'',
           Invoked 0 EarlyRead (Some 11) (Inr (Some 10)),
           Invoked 0 Write (Some 10) (Inr (Some 11)),
           Invoked 1 Write None (Inr None), Registered 2, Unregistered 3,
           Invoked 0 Read (Some 11) (Inr (Some 22)), Destroyed 1, Unregistered 1,
           Destroyed 3, Unregistered 3, Notified DeferredRenderHook]"
  by code_simp

text \<open>
  C8. In every execution, for every sequence of the active set: if the sequence was marked
  \<open>erroredOrDestroyed\<close> when the execution began, none of its hooks is invoked. Otherwise the
  hooks of the sequence that are invoked, with their phases, arguments and outcomes, are a
  beginning of what its hooks do along the four phases from the value the sequence held when
  the execution began: a phase without a hook is passed over and leaves the value as it is,
  each hook receives what the hook before it returned, and a hook that throws is the last.
  They are all of it if the execution returns and \<open>unregister\<close> was not called for the
  sequence during the phases. The execution returns if and only if the error handler
  returns for every error it is given. If it returns, every sequence that was in the active
  set holds the value \<open>undefined\<close> when it ends; what follows the phases invokes no hook.
\<close>

theorem execute_pipelines_values:
  assumes "set_wf (sequences m)"
  shows "\<exists>r1 new1 new2. execute m = Some (finish r1) \<and>
           events (state_of r1) = events m @ new1 \<and>
           events (state_of (finish r1)) = events m @ new1 @ new2 \<and>
           (\<forall>s. hook_runs s new2 = []) \<and>
           returned r1 = list_all (handler_quiet m) (handled_errors new1) \<and>
           (\<forall>s. set_has (sequences m) s \<longrightarrow>
              (if erroredOrDestroyed (objects m s) then hook_runs s new1 = []
               else \<exists>rest.
                      pipe (hooks (objects m s)) (pipelinedValue (objects m s))
                        AFTER_RENDER_PHASES = hook_runs s new1 @ rest \<and>
                      (returned r1 \<and> Unregistered s \<notin> set new1 \<longrightarrow> rest = []))) \<and>
           (returned r1 \<longrightarrow>
              (\<forall>s. set_has (sequences m) s \<longrightarrow>
                   pipelinedValue (objects (state_of (finish r1)) s) = None))"
proof -
  define m0 where "m0 = m\<lparr>events := []\<rparr>"
  obtain r0 new2 where r0:
    "execute m = Some (finish (map_state (prepend (events m)) r0))"
    "events (state_of (finish r0)) = events (state_of r0) @ new2"
    "\<forall>s. hook_runs s new2 = []"
    "sequences (state_of r0) = sequences m"
    "returned r0 = list_all (handler_quiet m) (handled_errors (events (state_of r0)))"
    "if returned r0 then traced m0 Read (length (sequences m)) (state_of r0)
     else \<exists>p j. traced m0 p j (state_of r0)"
    using execute_erased[OF assms] unfolding m0_def by blast
  define r1 where "r1 = map_state (prepend (events m)) r0"
  define new1 where "new1 = events (state_of r0)"
  have fin: "finish r1 = map_state (prepend (events m)) (finish r0)"
    by (simp add: r1_def finish_map_state prepend_after_phases)
  have m0: "sequences m0 = sequences m" "objects m0 = objects m" by (simp_all add: m0_def)
  have 1: "execute m = Some (finish r1)" using r0(1) by (simp add: r1_def)
  have 2: "events (state_of r1) = events m @ new1" by (simp add: r1_def new1_def)
  have 3: "events (state_of (finish r1)) = events m @ new1 @ new2"
    using r0(2) by (simp add: fin new1_def)
  have 4: "returned r1 = list_all (handler_quiet m) (handled_errors new1)"
    using r0(5) by (simp add: r1_def new1_def)
  have 5: "if erroredOrDestroyed (objects m s) then hook_runs s new1 = []
           else \<exists>rest.
                  pipe (hooks (objects m s)) (pipelinedValue (objects m s))
                    AFTER_RENDER_PHASES = hook_runs s new1 @ rest \<and>
                  (returned r1 \<and> Unregistered s \<notin> set new1 \<longrightarrow> rest = [])"
    if s: "set_has (sequences m) s" for s
  proof (cases "returned r0")
    case True
    then have "traced m0 Read (length (sequences m0)) (state_of r0)"
      using r0(6) by (simp add: m0)
    from traced_pipe[OF this, of s] s True show ?thesis
      by (auto simp: m0 new1_def r1_def split: if_splits)
  next
    case False
    then obtain p j where "traced m0 p j (state_of r0)" using r0(6) by auto
    from traced_pipe[OF this, of s] s False show ?thesis
      by (auto simp: m0 new1_def r1_def split: if_splits)
  qed
  have 6: "pipelinedValue (objects (state_of (finish r1)) s) = None"
    if "returned r1" "set_has (sequences m) s" for s
  proof (cases r0)
    case (Returned x)
    with r0(4) that(2) show ?thesis
      by (simp add: fin after_phases_spec(3) reset_def)
  next
    case (Thrown err x)
    with that(1) show ?thesis by (simp add: r1_def)
  qed
  from 1 2 3 r0(3) 4 5 6 show ?thesis by blast
qed

theorem execute_pipelines_values_witness:
  "set_wf (sequences example_manager) \<and> set_has (sequences example_manager) 0 \<and>
   (\<exists>r1 new1 new2. execute example_manager = Some (finish r1) \<and>
      events (state_of r1) = events example_manager @ new1 \<and>
      events (state_of (finish r1)) = events example_manager @ new1 @ new2 \<and>
      (\<forall>s. hook_runs s new2 = []) \<and>
      returned r1 = list_all (handler_quiet example_manager) (handled_errors new1) \<and>
      (if erroredOrDestroyed (objects example_manager 0) then hook_runs 0 new1 = []
       else \<exists>rest.
              pipe (hooks (objects example_manager 0)) (pipelinedValue (objects example_manager 0))
                AFTER_RENDER_PHASES = hook_runs 0 new1 @ rest \<and>
              (returned r1 \<and> Unregistered 0 \<notin> set new1 \<longrightarrow> rest = [])) \<and>
      (returned r1 \<longrightarrow> pipelinedValue (objects (state_of (finish r1)) 0) = None))"
proof -
  have h: "set_wf (sequences example_manager)"
    by (simp add: example_manager_def set_wf_def set_values_def)
  have h1: "set_has (sequences example_manager) 0"
    by (simp add: example_manager_def set_has_def)
  from execute_pipelines_values[OF h] h h1 show ?thesis by blast
qed


subsection \<open>Errors\<close>





end
